theory Spec2Isabelle
  imports Main
begin

section \<open>Data model of the forum crawler\<close>

text \<open>
  The crawler script walks a board of a remote forum from the newest post index down to
  index 1, counts posts per calendar day and appends one spreadsheet row per finished day.
  Everything outside the script (the forum client, the spreadsheet file, the clock, the
  logger) is made explicit here: remote calls are answered by an \<open>environment\<close> of
  oracles, and every observable action is appended to the \<open>events\<close> of the \<open>world\<close>.
\<close>

text \<open>Python exceptions that the script can meet; all of them derive from \<open>Exception\<close>.\<close>

datatype exn =
    TypeError | ValueError | AttributeError | KeyError | IndexError
  | RemoteError string | IOError string

text \<open>A spreadsheet cell as \<open>values_only=True\<close> returns it: empty, text or integer.\<close>

datatype cell = CNone | CStr string | CInt int

type_synonym row = "cell list"

text \<open>A calendar date, by its proleptic ordinal (\<open>date.toordinal()\<close>); only equality of
  dates is used by the script.\<close>

type_synonym date = int

text \<open>A fetched post is a dictionary; the script reads its key \<open>date\<close> only.\<close>

type_synonym post = "(string \<times> string) list"

record CrawlerConfig =
  ptt_id :: string
  ptt_pwd :: string
  board_name :: string
  file_name :: string
  max_retries :: int
  retry_delay :: int

datatype opname = Login | GetNewestIndex | GetPost int | Save | Logout

datatype info =
    Resume date int | LoggedIn | Newest "int option" | DayDone date int int
  | AllSaved | LoggedOut

datatype event =
    Call opname
  | Sleep int
  | PbarUpdate
  | Info info
  | Warning exn
  | ErrorIndex int exn
  | ErrorCrawl exn
  | ErrorLogout exn

text \<open>
  The collaborators. Each remote operation and the workbook's \<open>save\<close> answer by the number
  of earlier invocations of the same operation, so that "fails twice, then succeeds" is an
  oracle. The three \<open>datetime\<close> conversions are parameters: \<open>strptime_ymd\<close> parses
  \<open>%Y-%m-%d\<close>, \<open>strptime_post\<close> parses the forum's time stamp and keeps the date,
  \<open>strftime_ymd\<close> prints \<open>%Y-%m-%d\<close>; a parser answers \<open>None\<close> where Python raises
  \<open>ValueError\<close>.
\<close>

record environment =
  login :: "string \<Rightarrow> string \<Rightarrow> nat \<Rightarrow> exn + unit"
  get_newest_index :: "string \<Rightarrow> nat \<Rightarrow> exn + int"
  get_post :: "string \<Rightarrow> int \<Rightarrow> nat \<Rightarrow> exn + post"
  logout :: "nat \<Rightarrow> exn + unit"
  workbook_save :: "nat \<Rightarrow> exn + unit"
  strptime_ymd :: "string \<Rightarrow> date option"
  strptime_post :: "string \<Rightarrow> date option"
  strftime_ymd :: "date \<Rightarrow> string"

text \<open>
  The state: the spreadsheet file at \<open>file_name\<close> (\<open>None\<close>: no such file), the fields of
  the crawler object, and the trace of events so far.
\<close>

record world =
  disk :: "row list option"
  sheet :: "row list option"
  start_date :: "date option"
  start_index :: "int option"
  events :: "event list"

text \<open>The constructor: no workbook opened, no cursor.\<close>

definition init_world :: "row list option \<Rightarrow> world" where
  "init_world d =
     \<lparr>disk = d, sheet = None, start_date = None, start_index = None, events = []\<rparr>"

definition emit :: "event list \<Rightarrow> world \<Rightarrow> world" where
  "emit es w = w\<lparr>events := events w @ es\<rparr>"

definition calls :: "opname \<Rightarrow> world \<Rightarrow> nat" where
  "calls nm w = count_list (events w) (Call nm)"

text \<open>Invoking a collaborator: the oracle answers by the count of earlier calls, and the
  call is recorded.\<close>

definition invoke :: "opname \<Rightarrow> (nat \<Rightarrow> exn + 'a) \<Rightarrow> world \<Rightarrow> (exn + 'a) \<times> world" where
  "invoke nm oracle w = (oracle (calls nm w), emit [Call nm] w)"

definition ptt_login :: "environment \<Rightarrow> string \<Rightarrow> string \<Rightarrow> world \<Rightarrow> (exn + unit) \<times> world" where
  "ptt_login env uid pwd = invoke Login (login env uid pwd)"

definition ptt_get_newest_index :: "environment \<Rightarrow> string \<Rightarrow> world \<Rightarrow> (exn + int) \<times> world" where
  "ptt_get_newest_index env board = invoke GetNewestIndex (get_newest_index env board)"

definition ptt_get_post :: "environment \<Rightarrow> string \<Rightarrow> int \<Rightarrow> world \<Rightarrow> (exn + post) \<times> world" where
  "ptt_get_post env board i = invoke (GetPost i) (get_post env board i)"

definition ptt_logout :: "environment \<Rightarrow> world \<Rightarrow> (exn + unit) \<times> world" where
  "ptt_logout env = invoke Logout (logout env)"

text \<open>\<open>workbook.save(file_name)\<close>: on success the file holds the sheet in memory.\<close>

definition save_workbook :: "environment \<Rightarrow> world \<Rightarrow> (exn + unit) \<times> world" where
  "save_workbook env w =
     (case sheet w of
        None \<Rightarrow> (Inl AttributeError, w)
      | Some rows \<Rightarrow>
          (case invoke Save (workbook_save env) w of
             (Inl e, w') \<Rightarrow> (Inl e, w')
           | (Inr u, w') \<Rightarrow> (Inr (), w'\<lparr>disk := Some rows\<rparr>)))"

section \<open>The progress store\<close>

text \<open>Python truthiness of a cell value.\<close>

fun truthy :: "cell \<Rightarrow> bool" where
  "truthy CNone = False"
| "truthy (CStr s) = (s \<noteq> [])"
| "truthy (CInt i) = (i \<noteq> 0)"

definition cell_at :: "row \<Rightarrow> nat \<Rightarrow> exn + cell" where
  "cell_at r n = (if n < length r then Inr (r ! n) else Inl IndexError)"

text \<open>The header the script writes (its three column titles, here in English).\<close>

definition header_row :: row where
  "header_row = [CStr ''date'', CStr ''count'', CStr ''earliest_index'']"

text \<open>
  The list \<open>dates\<close> of \<open>load_progress\<close>: the pairs \<open>(row[0], row[2])\<close> of the rows where
  both are truthy. \<open>row[2]\<close> is read only when \<open>row[0]\<close> is truthy.
\<close>

fun progress_dates :: "row list \<Rightarrow> exn + (cell \<times> cell) list" where
  "progress_dates [] = Inr []"
| "progress_dates (r # rs) =
     (case cell_at r 0 of
        Inl e \<Rightarrow> Inl e
      | Inr c0 \<Rightarrow>
          if truthy c0 then
            (case cell_at r 2 of
               Inl e \<Rightarrow> Inl e
             | Inr c2 \<Rightarrow>
                 (case progress_dates rs of
                    Inl e \<Rightarrow> Inl e
                  | Inr ds \<Rightarrow> Inr (if truthy c2 then (c0, c2) # ds else ds)))
          else progress_dates rs)"

text \<open>\<open>datetime.strptime(c, '%Y-%m-%d').date()\<close> on a cell value.\<close>

definition parse_date_cell :: "environment \<Rightarrow> cell \<Rightarrow> exn + date" where
  "parse_date_cell env c =
     (case c of
        CStr s \<Rightarrow> (case strptime_ymd env s of None \<Rightarrow> Inl ValueError | Some d \<Rightarrow> Inr d)
      | _ \<Rightarrow> Inl TypeError)"

text \<open>\<open>c - 1\<close> on a truthy cell value.\<close>

definition decrement_cell :: "cell \<Rightarrow> exn + int" where
  "decrement_cell c = (case c of CInt i \<Rightarrow> Inr (i - 1) | _ \<Rightarrow> Inl TypeError)"

text \<open>
  \<open>load_progress\<close>. With a file: the rows after the header are scanned and the cursor is
  taken from the last pair of \<open>dates\<close>; the date is parsed before the index is decremented.
  On an exception the cursor fields keep their old values here (in Python they hold raw
  cell values by then, which nothing reads again). Without a file: a new workbook with the
  header row is saved and the cursor is left as it was.
\<close>

definition load_progress :: "environment \<Rightarrow> CrawlerConfig \<Rightarrow> world \<Rightarrow> (exn + unit) \<times> world" where
  "load_progress env cfg w =
     (case disk w of
        Some rows \<Rightarrow>
          (let w1 = w\<lparr>sheet := Some rows\<rparr> in
           case progress_dates (drop 1 rows) of
             Inl e \<Rightarrow> (Inl e, w1)
           | Inr dates \<Rightarrow>
               if dates \<noteq> [] then
                 (case parse_date_cell env (fst (last dates)) of
                    Inl e \<Rightarrow> (Inl e, w1)
                  | Inr d \<Rightarrow>
                      (case decrement_cell (snd (last dates)) of
                         Inl e \<Rightarrow> (Inl e, w1)
                       | Inr i \<Rightarrow>
                           (Inr (), emit [Info (Resume d i)]
                                      (w1\<lparr>start_date := Some d, start_index := Some i\<rparr>))))
               else (Inr (), w1\<lparr>start_date := None, start_index := None\<rparr>))
      | None \<Rightarrow> save_workbook env (w\<lparr>sheet := Some [header_row]\<rparr>))"

text \<open>\<open>save_daily_count\<close>: the row is appended to the sheet in memory, then the workbook
  is saved, then the day is logged.\<close>

definition save_daily_count ::
    "environment \<Rightarrow> date \<Rightarrow> int \<Rightarrow> int \<Rightarrow> world \<Rightarrow> (exn + unit) \<times> world" where
  "save_daily_count env current_date count index w =
     (case sheet w of
        None \<Rightarrow> (Inl AttributeError, w)
      | Some rows \<Rightarrow>
          (case save_workbook env
                  (w\<lparr>sheet := Some (rows @ [[CStr (strftime_ymd env current_date),
                                              CInt count, CInt index]])\<rparr>) of
             (Inl e, w') \<Rightarrow> (Inl e, w')
           | (Inr u, w') \<Rightarrow> (Inr (), emit [Info (DayDone current_date count index)] w')))"

section \<open>The retry wrapper\<close>

text \<open>
  \<open>retry_operation\<close>: \<open>for attempt in range(max_retries)\<close>. The second argument is
  \<open>attempt\<close>, the third the number of iterations left. A failure on the last attempt is
  re-raised; on an earlier one a warning is logged and \<open>time.sleep(retry_delay)\<close> runs,
  which itself raises \<open>ValueError\<close> on a negative delay. When the range is empty the
  function falls off its end and returns \<open>None\<close>.
\<close>

fun retry_attempts ::
    "CrawlerConfig \<Rightarrow> nat \<Rightarrow> nat \<Rightarrow> (world \<Rightarrow> (exn + 'a) \<times> world) \<Rightarrow> world
       \<Rightarrow> (exn + 'a option) \<times> world" where
  "retry_attempts cfg attempt 0 operation w = (Inr None, w)"
| "retry_attempts cfg attempt (Suc n) operation w =
     (case operation w of
        (Inr v, w') \<Rightarrow> (Inr (Some v), w')
      | (Inl e, w') \<Rightarrow>
          if int attempt = max_retries cfg - 1 then (Inl e, w')
          else if retry_delay cfg < 0 then (Inl ValueError, emit [Warning e] w')
          else retry_attempts cfg (Suc attempt) n operation
                 (emit [Warning e, Sleep (retry_delay cfg)] w'))"

definition retry_operation ::
    "CrawlerConfig \<Rightarrow> (world \<Rightarrow> (exn + 'a) \<times> world) \<Rightarrow> world \<Rightarrow> (exn + 'a option) \<times> world" where
  "retry_operation cfg operation w =
     retry_attempts cfg 0 (nat (max_retries cfg)) operation w"

section \<open>The traversal\<close>

text \<open>The local variables of \<open>crawl\<close> that the loop updates.\<close>

record locals =
  current_index :: int
  current_date :: "date option"
  daily_count :: "date \<rightharpoonup> int"

text \<open>Python's \<open>a or b\<close> on optional integers: \<open>a\<close> when it is truthy, else \<open>b\<close>.\<close>

definition py_or :: "int option \<Rightarrow> int option \<Rightarrow> int option" where
  "py_or a b = (case a of None \<Rightarrow> b | Some i \<Rightarrow> if i = 0 then b else Some i)"

text \<open>
  The body of the inner \<open>try\<close>: fetch the post with retries, parse its date, adopt the
  date when no day is active, then either flush the finished day and start the new one, or
  count the post. An exception leaves the locals as they were at the point of the raise.
\<close>

definition process_post ::
    "environment \<Rightarrow> CrawlerConfig \<Rightarrow> locals \<Rightarrow> world \<Rightarrow> (exn + unit) \<times> locals \<times> world" where
  "process_post env cfg ls w =
     (case retry_operation cfg (ptt_get_post env (board_name cfg) (current_index ls)) w of
        (Inl e, w1) \<Rightarrow> (Inl e, ls, w1)
      | (Inr None, w1) \<Rightarrow> (Inl AttributeError, ls, w1)
      | (Inr (Some p), w1) \<Rightarrow>
          (case map_of p ''date'' of
             None \<Rightarrow> (Inl TypeError, ls, w1)
           | Some post_date_str \<Rightarrow>
               (case strptime_post env post_date_str of
                  None \<Rightarrow> (Inl ValueError, ls, w1)
                | Some post_date \<Rightarrow>
                    (let cur = (case current_date ls of None \<Rightarrow> post_date | Some d \<Rightarrow> d);
                         ls1 = ls\<lparr>current_date := Some cur\<rparr>
                     in if post_date \<noteq> cur then
                          (case daily_count ls1 cur of
                             None \<Rightarrow> (Inl KeyError, ls1, w1)
                           | Some c \<Rightarrow>
                               (case save_daily_count env cur c (current_index ls1 + 1) w1 of
                                  (Inl e, w2) \<Rightarrow> (Inl e, ls1, w2)
                                | (Inr u, w2) \<Rightarrow>
                                    (Inr (),
                                     ls1\<lparr>current_date := Some post_date,
                                         daily_count := (daily_count ls1)(post_date \<mapsto> 1)\<rparr>,
                                     w2)))
                        else
                          (Inr (),
                           ls1\<lparr>daily_count := (daily_count ls1)(post_date \<mapsto>
                                  (case daily_count ls1 post_date of None \<Rightarrow> 0 | Some c \<Rightarrow> c) + 1)\<rparr>,
                           w1)))))"

text \<open>One iteration of the \<open>while\<close> loop: the \<open>try\<close> body, the handler that logs any
  exception, the decrement and the progress bar.\<close>

definition crawl_step :: "environment \<Rightarrow> CrawlerConfig \<Rightarrow> locals \<Rightarrow> world \<Rightarrow> locals \<times> world" where
  "crawl_step env cfg ls w =
     (case process_post env cfg ls w of
        (Inl e, ls1, w1) \<Rightarrow>
          (ls1\<lparr>current_index := current_index ls1 - 1\<rparr>,
           emit [PbarUpdate] (emit [ErrorIndex (current_index ls1) e] w1))
      | (Inr u, ls1, w1) \<Rightarrow>
          (ls1\<lparr>current_index := current_index ls1 - 1\<rparr>, emit [PbarUpdate] w1))"

text \<open>\<open>while current_index > 0\<close>.\<close>

function crawl_loop :: "environment \<Rightarrow> CrawlerConfig \<Rightarrow> locals \<Rightarrow> world \<Rightarrow> locals \<times> world" where
  "crawl_loop env cfg ls w =
     (if current_index ls > 0
      then (case crawl_step env cfg ls w of (ls', w') \<Rightarrow> crawl_loop env cfg ls' w')
      else (ls, w))"
  by pat_completeness auto
termination
  by (relation "measure (\<lambda>(env, cfg, ls, w). nat (current_index ls))")
     (auto simp: crawl_step_def process_post_def Let_def
           split: prod.splits sum.splits option.splits if_splits)

text \<open>The indices at which the loop body runs, in order.\<close>

function visited :: "environment \<Rightarrow> CrawlerConfig \<Rightarrow> locals \<Rightarrow> world \<Rightarrow> int list" where
  "visited env cfg ls w =
     (if current_index ls > 0
      then (case crawl_step env cfg ls w of
              (ls', w') \<Rightarrow> current_index ls # visited env cfg ls' w')
      else [])"
  by pat_completeness auto
termination
  by (relation "measure (\<lambda>(env, cfg, ls, w). nat (current_index ls))")
     (auto simp: crawl_step_def process_post_def Let_def
           split: prod.splits sum.splits option.splits if_splits)

text \<open>The flush after the loop: \<open>if current_date: save_daily_count(...)\<close>.\<close>

definition final_flush :: "environment \<Rightarrow> locals \<Rightarrow> world \<Rightarrow> (exn + unit) \<times> world" where
  "final_flush env ls w =
     (case current_date ls of
        None \<Rightarrow> (Inr (), w)
      | Some d \<Rightarrow>
          (case daily_count ls d of
             None \<Rightarrow> (Inl KeyError, w)
           | Some c \<Rightarrow> save_daily_count env d c (current_index ls + 1) w))"

text \<open>The start of \<open>crawl\<close>: load the progress, log in, ask for the newest index, choose
  the starting index \<open>start_index or latest_index\<close>.\<close>

definition crawl_start ::
    "environment \<Rightarrow> CrawlerConfig \<Rightarrow> world \<Rightarrow> (exn + int option) \<times> world" where
  "crawl_start env cfg w =
     (case load_progress env cfg w of
        (Inl e, w1) \<Rightarrow> (Inl e, w1)
      | (Inr u, w1) \<Rightarrow>
          (case retry_operation cfg (ptt_login env (ptt_id cfg) (ptt_pwd cfg)) w1 of
             (Inl e, w2) \<Rightarrow> (Inl e, w2)
           | (Inr u', w2) \<Rightarrow>
               (case retry_operation cfg (ptt_get_newest_index env (board_name cfg))
                       (emit [Info LoggedIn] w2) of
                  (Inl e, w3) \<Rightarrow> (Inl e, w3)
                | (Inr latest_index, w3) \<Rightarrow>
                    (Inr (py_or (start_index w3) latest_index),
                     emit [Info (Newest latest_index)] w3))))"

text \<open>The traversal from the chosen index: the loop, the final flush, the closing log
  line. Comparing \<open>None > 0\<close> raises \<open>TypeError\<close>.\<close>

definition traverse ::
    "environment \<Rightarrow> CrawlerConfig \<Rightarrow> int option \<Rightarrow> world \<Rightarrow> (exn + unit) \<times> world" where
  "traverse env cfg index w =
     (case index of
        None \<Rightarrow> (Inl TypeError, w)
      | Some i \<Rightarrow>
          (case crawl_loop env cfg
                  \<lparr>current_index = i, current_date = None, daily_count = Map.empty\<rparr> w of
             (ls, w1) \<Rightarrow>
               (case final_flush env ls w1 of
                  (Inl e, w2) \<Rightarrow> (Inl e, w2)
                | (Inr u, w2) \<Rightarrow> (Inr (), emit [Info AllSaved] w2))))"

definition crawl_body :: "environment \<Rightarrow> CrawlerConfig \<Rightarrow> world \<Rightarrow> (exn + unit) \<times> world" where
  "crawl_body env cfg w =
     (case crawl_start env cfg w of
        (Inl e, w1) \<Rightarrow> (Inl e, w1)
      | (Inr index, w1) \<Rightarrow> traverse env cfg index w1)"

text \<open>The \<open>finally\<close> clause: log out; a failure is logged and goes no further.\<close>

definition close_session :: "environment \<Rightarrow> world \<Rightarrow> world" where
  "close_session env w =
     (case ptt_logout env w of
        (Inl e, w') \<Rightarrow> emit [ErrorLogout e] w'
      | (Inr u, w') \<Rightarrow> emit [Info LoggedOut] w')"

text \<open>\<open>crawl\<close>: an exception of the body is logged and re-raised; the session is closed
  either way.\<close>

definition crawl :: "environment \<Rightarrow> CrawlerConfig \<Rightarrow> world \<Rightarrow> (exn + unit) \<times> world" where
  "crawl env cfg w =
     (case crawl_body env cfg w of
        (Inl e, w1) \<Rightarrow> (Inl e, close_session env (emit [ErrorCrawl e] w1))
      | (Inr u, w1) \<Rightarrow> (Inr (), close_session env w1))"

section \<open>Notions used to state the properties\<close>

text \<open>The date of a fetched post, when it has a \<open>date\<close> field that parses.\<close>

definition post_date_of :: "environment \<Rightarrow> post \<Rightarrow> date option" where
  "post_date_of env p =
     (case map_of p ''date'' of None \<Rightarrow> None | Some s \<Rightarrow> strptime_post env s)"

text \<open>The row that \<open>save_daily_count\<close> appends for a day, its count and its earliest
  index.\<close>

definition day_row :: "environment \<Rightarrow> date \<times> int \<times> int \<Rightarrow> row" where
  "day_row env t =
     (case t of (d, c, e) \<Rightarrow> [CStr (strftime_ymd env d), CInt c, CInt e])"

text \<open>
  What an index of the archive does: \<open>answers env cfg i (Some d)\<close> when every call of
  \<open>get_post\<close> at \<open>i\<close> yields a post dated \<open>d\<close>, \<open>answers env cfg i None\<close> when every call
  fails.
\<close>

definition answers :: "environment \<Rightarrow> CrawlerConfig \<Rightarrow> int \<Rightarrow> date option \<Rightarrow> bool" where
  "answers env cfg i r =
     (case r of
        Some d \<Rightarrow>
          (\<forall>k. \<exists>p. get_post env (board_name cfg) i k = Inr p \<and> post_date_of env p = Some d)
      | None \<Rightarrow> (\<forall>k. isl (get_post env (board_name cfg) i k)))"

text \<open>A session in which at least one attempt is made per call, logging in and saving
  always succeed and the newest index is \<open>N\<close>.\<close>

definition reliable :: "environment \<Rightarrow> CrawlerConfig \<Rightarrow> int \<Rightarrow> bool" where
  "reliable env cfg N =
     (0 < max_retries cfg
      \<and> (\<forall>k. login env (ptt_id cfg) (ptt_pwd cfg) k = Inr ())
      \<and> (\<forall>k. get_newest_index env (board_name cfg) k = Inr N)
      \<and> (\<forall>k. workbook_save env k = Inr ()))"

text \<open>
  The rows that a walk over the indices \<open>n, ..., 1\<close> appends when index \<open>i\<close> yields the date
  \<open>f i\<close> (or nothing): \<open>act\<close> is the active day with its count; a row is a day, its count
  and its earliest index.
\<close>

fun tally :: "(int \<Rightarrow> date option) \<Rightarrow> (date \<times> int) option \<Rightarrow> nat \<Rightarrow> (date \<times> int \<times> int) list" where
  "tally f act 0 = (case act of None \<Rightarrow> [] | Some (d, c) \<Rightarrow> [(d, c, 1)])"
| "tally f act (Suc n) =
     (case f (int (Suc n)) of
        None \<Rightarrow> tally f act n
      | Some pd \<Rightarrow>
          (case act of
             None \<Rightarrow> tally f (Some (pd, 1)) n
           | Some (d, c) \<Rightarrow>
               if pd = d then tally f (Some (d, c + 1)) n
               else (d, c, int (Suc n) + 1) # tally f (Some (pd, 1)) n))"

text \<open>The sum of the counts recorded for a day.\<close>

definition day_total :: "date \<Rightarrow> (date \<times> int \<times> int) list \<Rightarrow> int" where
  "day_total d T = sum_list (map (\<lambda>(d', c, e). if d' = d then c else 0) T)"

text \<open>The count that the file holds for a day: the sum over the rows that carry the
  day's text in the date column and an integer in the count column.\<close>

fun row_count :: "string \<Rightarrow> row \<Rightarrow> int" where
  "row_count s [CStr s', CInt c, x] = (if s' = s then c else 0)"
| "row_count s r = 0"

definition persisted_count :: "environment \<Rightarrow> date \<Rightarrow> world \<Rightarrow> int" where
  "persisted_count env d w =
     (case disk w of
        None \<Rightarrow> 0
      | Some rows \<Rightarrow> sum_list (map (row_count (strftime_ymd env d)) rows))"

text \<open>The loop followed by the final flush, from any loop state.\<close>

definition loop_then_flush ::
    "environment \<Rightarrow> CrawlerConfig \<Rightarrow> locals \<Rightarrow> world \<Rightarrow> (exn + unit) \<times> world" where
  "loop_then_flush env cfg ls w =
     (case crawl_loop env cfg ls w of (ls', w') \<Rightarrow> final_flush env ls' w')"

text \<open>The locals agree with an active day and its count.\<close>

definition tracks :: "locals \<Rightarrow> (date \<times> int) option \<Rightarrow> bool" where
  "tracks ls act =
     (case act of
        None \<Rightarrow> current_date ls = None \<and> daily_count ls = Map.empty
      | Some (d, c) \<Rightarrow> current_date ls = Some d \<and> daily_count ls d = Some c)"

text \<open>What a run keeps apart from its trace: the file, the sheet and the cursor.\<close>

definition store :: "world \<Rightarrow> row list option \<times> row list option \<times> date option \<times> int option" where
  "store w = (disk w, sheet w, start_date w, start_index w)"

section \<open>Example inputs\<close>

text \<open>The configuration of the script's own usage example, with no delay between
  attempts, and a remote call that fails twice before it answers.\<close>

definition example_config :: CrawlerConfig where
  "example_config =
     \<lparr>ptt_id = ''ID'', ptt_pwd = ''PW'', board_name = ''Stock'',
      file_name = ''ptt_data.xlsx'', max_retries = 3, retry_delay = 0\<rparr>"

definition flaky :: "nat \<Rightarrow> exn + int" where
  "flaky n = (if n < 2 then Inl (RemoteError ''timeout'') else Inr 7)"

text \<open>
  A synthetic archive of five posts: indices 5 and 4 on 3 January 2024, index 3 on
  2 January, indices 2 and 1 on 1 January; every remote call and every save succeeds.
\<close>

definition example_stamp :: "int \<Rightarrow> string" where
  "example_stamp i =
     (if i \<le> 2 then ''Mon Jan 01 10:00:00 2024''
      else if i \<le> 3 then ''Tue Jan 02 10:00:00 2024''
      else ''Wed Jan 03 10:00:00 2024'')"

definition example_date :: "int \<Rightarrow> date" where
  "example_date i = (if i \<le> 2 then 738886 else if i \<le> 3 then 738887 else 738888)"

definition example_env :: environment where
  "example_env =
     \<lparr>login = (\<lambda>uid pwd n. Inr ()),
      get_newest_index = (\<lambda>board n. Inr 5),
      get_post = (\<lambda>board i n. Inr [(''date'', example_stamp i)]),
      logout = (\<lambda>n. Inr ()),
      workbook_save = (\<lambda>n. Inr ()),
      strptime_ymd = (\<lambda>s. if s = ''2024-01-01'' then Some 738886
                          else if s = ''2024-01-02'' then Some 738887
                          else if s = ''2024-01-03'' then Some 738888 else None),
      strptime_post = (\<lambda>s. if s = ''Mon Jan 01 10:00:00 2024'' then Some 738886
                          else if s = ''Tue Jan 02 10:00:00 2024'' then Some 738887
                          else if s = ''Wed Jan 03 10:00:00 2024'' then Some 738888 else None),
      strftime_ymd = (\<lambda>d. if d = 738886 then ''2024-01-01''
                          else if d = 738887 then ''2024-01-02''
                          else if d = 738888 then ''2024-01-03'' else ''other'')\<rparr>"

text \<open>The same archive when no post can be fetched.\<close>

definition unreachable_env :: environment where
  "unreachable_env =
     example_env\<lparr>get_post := (\<lambda>board i n. Inl (RemoteError ''no such post''))\<rparr>"

text \<open>A table of a finished run of an older archive: its last row has earliest index 1.\<close>

definition finished_table :: "row list" where
  "finished_table = [header_row, [CStr ''2024-01-02'', CInt 1, CInt 3],
                     [CStr ''2024-01-01'', CInt 2, CInt 1]]"

text \<open>A table of an interrupted run, followed by an empty row.\<close>

definition partial_table :: "row list" where
  "partial_table = [header_row, [CStr ''2024-01-03'', CInt 2, CInt 4], [CNone, CNone, CNone]]"

text \<open>The archive when the second save of the run (the first flush of a day) fails, and
  when the fourth one (the final flush) fails.\<close>

definition save_fails_once_env :: environment where
  "save_fails_once_env =
     example_env\<lparr>workbook_save :=
       (\<lambda>n. if n = 1 then Inl (IOError ''disk full'') else Inr ())\<rparr>"

definition final_save_fails_env :: environment where
  "final_save_fails_env =
     example_env\<lparr>workbook_save :=
       (\<lambda>n. if n = 3 then Inl (IOError ''disk full'') else Inr ())\<rparr>"

text \<open>A loop state at index 3 with 3 January active and two posts counted, over a table
  that holds the header only.\<close>

definition boundary_locals :: locals where
  "boundary_locals =
     \<lparr>current_index = 3, current_date = Some 738888, daily_count = [738888 \<mapsto> 2]\<rparr>"

definition boundary_world :: world where
  "boundary_world = (init_world (Some [header_row]))\<lparr>sheet := Some [header_row]\<rparr>"

text \<open>The archive when the post at index 4 can never be fetched.\<close>

definition lost_post_env :: environment where
  "lost_post_env =
     example_env\<lparr>get_post :=
       (\<lambda>board i n. if i = 4 then Inl (RemoteError ''no such post'')
                     else get_post example_env board i n)\<rparr>"

section \<open>Basic facts\<close>

lemma events_emit [simp]: "events (emit es w) = events w @ es"
  and disk_emit [simp]: "disk (emit es w) = disk w"
  and sheet_emit [simp]: "sheet (emit es w) = sheet w"
  and start_date_emit [simp]: "start_date (emit es w) = start_date w"
  and start_index_emit [simp]: "start_index (emit es w) = start_index w"
  by (simp_all add: emit_def)

lemma calls_emit [simp]: "calls nm (emit es w) = calls nm w + count_list es (Call nm)"
  by (simp add: calls_def)

lemma calls_disk_update [simp]: "calls nm (w\<lparr>disk := d\<rparr>) = calls nm w"
  and calls_sheet_update [simp]: "calls nm (w\<lparr>sheet := s\<rparr>) = calls nm w"
  and calls_start_date_update [simp]: "calls nm (w\<lparr>start_date := sd\<rparr>) = calls nm w"
  and calls_start_index_update [simp]: "calls nm (w\<lparr>start_index := si\<rparr>) = calls nm w"
  by (simp_all add: calls_def)

lemma invoke_eq: "invoke nm oracle w = (oracle (calls nm w), emit [Call nm] w)"
  by (simp add: invoke_def)

lemma invoke_fst [simp]: "fst (invoke nm oracle w) = oracle (calls nm w)"
  and invoke_snd [simp]: "snd (invoke nm oracle w) = emit [Call nm] w"
  by (simp_all add: invoke_def)

lemma retry_attempts_exhausted:
  assumes "int (attempt + n) = max_retries cfg" and "0 \<le> retry_delay cfg" and "0 < n"
    and "\<forall>j<n. isl (oracle (calls nm w + j))"
  shows "fst (retry_attempts cfg attempt n (invoke nm oracle) w)
           = Inl (projl (oracle (calls nm w + n - 1)))
         \<and> calls nm (snd (retry_attempts cfg attempt n (invoke nm oracle) w)) = calls nm w + n"
  using assms
proof (induction n arbitrary: attempt w)
  case 0
  then show ?case by simp
next
  case (Suc n)
  from Suc.prems(4) have h0: "isl (oracle (calls nm w))" by force
  then obtain e where e: "oracle (calls nm w) = Inl e" by (cases "oracle (calls nm w)") auto
  show ?case
  proof (cases "n = 0")
    case True
    with Suc.prems e show ?thesis by (simp add: invoke_eq)
  next
    case False
    let ?w = "emit [Warning e, Sleep (retry_delay cfg)] (emit [Call nm] w)"
    have c: "calls nm ?w = calls nm w + 1" by simp
    have "\<forall>j<n. isl (oracle (calls nm ?w + j))"
      using Suc.prems(4) c by (metis Suc_less_eq add_Suc_right add_Suc_shift plus_1_eq_Suc add.commute)
    with Suc.IH [of "Suc attempt" ?w] Suc.prems False
    have "fst (retry_attempts cfg (Suc attempt) n (invoke nm oracle) ?w)
           = Inl (projl (oracle (calls nm ?w + n - 1)))
         \<and> calls nm (snd (retry_attempts cfg (Suc attempt) n (invoke nm oracle) ?w)) = calls nm ?w + n"
      by simp
    moreover have "retry_attempts cfg attempt (Suc n) (invoke nm oracle) w
        = retry_attempts cfg (Suc attempt) n (invoke nm oracle) ?w"
      using Suc.prems False e by (simp add: invoke_eq)
    ultimately show ?thesis using c by simp
  qed
qed

lemma retry_attempts_success:
  assumes "int (attempt + n) = max_retries cfg" and "0 \<le> retry_delay cfg" and "k < n"
    and "\<forall>j<k. isl (oracle (calls nm w + j))" and "oracle (calls nm w + k) = Inr v"
  shows "fst (retry_attempts cfg attempt n (invoke nm oracle) w) = Inr (Some v)
         \<and> calls nm (snd (retry_attempts cfg attempt n (invoke nm oracle) w)) = calls nm w + k + 1"
  using assms
proof (induction n arbitrary: attempt w k)
  case 0
  then show ?case by simp
next
  case (Suc n)
  show ?case
  proof (cases k)
    case 0
    with Suc.prems show ?thesis by (simp add: invoke_eq)
  next
    case (Suc k')
    with Suc.prems(4) have "isl (oracle (calls nm w))" by force
    then obtain e where e: "oracle (calls nm w) = Inl e" by (cases "oracle (calls nm w)") auto
    let ?w = "emit [Warning e, Sleep (retry_delay cfg)] (emit [Call nm] w)"
    have c: "calls nm ?w = calls nm w + 1" by simp
    have a: "\<forall>j<k'. isl (oracle (calls nm ?w + j))"
      using Suc.prems(4) Suc c by (metis Suc_less_eq add_Suc_right add_Suc_shift plus_1_eq_Suc add.commute)
    have b: "oracle (calls nm ?w + k') = Inr v" using Suc.prems(5) Suc c by simp
    have ne: "int attempt \<noteq> max_retries cfg - 1" using Suc.prems(1,3) Suc by simp
    have "fst (retry_attempts cfg (Suc attempt) n (invoke nm oracle) ?w) = Inr (Some v)
         \<and> calls nm (snd (retry_attempts cfg (Suc attempt) n (invoke nm oracle) ?w)) = calls nm ?w + k' + 1"
      using Suc.IH [of "Suc attempt" k' ?w] Suc.prems(1,2,3) Suc a b by simp
    moreover have "retry_attempts cfg attempt (Suc n) (invoke nm oracle) w
        = retry_attempts cfg (Suc attempt) n (invoke nm oracle) ?w"
      using Suc.prems(2) ne e by (simp add: invoke_eq)
    ultimately show ?thesis using c Suc by simp
  qed
qed

lemma retry_attempts_calls_le:
  "calls nm (snd (retry_attempts cfg attempt n (invoke nm oracle) w)) \<le> calls nm w + n"
proof (induction n arbitrary: attempt w)
  case 0
  then show ?case by simp
next
  case (Suc n)
  let ?w = "\<lambda>e. emit [Warning e, Sleep (retry_delay cfg)] (emit [Call nm] w)"
  have "\<And>e. calls nm (snd (retry_attempts cfg (Suc attempt) n (invoke nm oracle) (?w e)))
      \<le> calls nm w + 1 + n"
    using Suc.IH [of "Suc attempt" "?w _"] by simp
  moreover have "invoke nm oracle w = (oracle (calls nm w), emit [Call nm] w)"
    by (simp add: invoke_def)
  ultimately show ?case
    by (cases "oracle (calls nm w)") auto
qed

section \<open>The retry wrapper is bounded\<close>

text \<open>
  Claim C5. For an operation answered by any oracle, with \<open>max_retries \<ge> 1\<close> (and a delay
  that \<open>time.sleep\<close> accepts): \<open>retry_operation\<close> invokes the operation at most
  \<open>max_retries\<close> times; when attempt \<open>k\<close> is the first to succeed, its result is returned
  after exactly \<open>k + 1\<close> invocations; when all \<open>max_retries\<close> attempts fail, the exception of
  the last attempt is raised after exactly \<open>max_retries\<close> invocations. In particular, with
  \<open>max_retries = 3\<close> and \<open>retry_delay = 0\<close>, an operation that fails twice and then succeeds
  is invoked exactly three times and its result is returned.
\<close>

theorem retry_operation_bounded:
  assumes "1 \<le> max_retries cfg" and "0 \<le> retry_delay cfg"
  shows "calls nm (snd (retry_operation cfg (invoke nm oracle) w))
           \<le> calls nm w + nat (max_retries cfg)
       \<and> (\<forall>k v. k < nat (max_retries cfg) \<and> (\<forall>j<k. isl (oracle (calls nm w + j)))
                 \<and> oracle (calls nm w + k) = Inr v
             \<longrightarrow> fst (retry_operation cfg (invoke nm oracle) w) = Inr (Some v)
                 \<and> calls nm (snd (retry_operation cfg (invoke nm oracle) w))
                     = calls nm w + k + 1)
       \<and> ((\<forall>j < nat (max_retries cfg). isl (oracle (calls nm w + j)))
             \<longrightarrow> fst (retry_operation cfg (invoke nm oracle) w)
                   = Inl (projl (oracle (calls nm w + nat (max_retries cfg) - 1)))
                 \<and> calls nm (snd (retry_operation cfg (invoke nm oracle) w))
                     = calls nm w + nat (max_retries cfg))
       \<and> (max_retries cfg = 3 \<and> retry_delay cfg = 0
            \<and> isl (oracle (calls nm w)) \<and> isl (oracle (calls nm w + 1))
            \<and> oracle (calls nm w + 2) = Inr r
             \<longrightarrow> fst (retry_operation cfg (invoke nm oracle) w) = Inr (Some r)
                 \<and> calls nm (snd (retry_operation cfg (invoke nm oracle) w))
                     = calls nm w + 3)"
proof -
  let ?m = "nat (max_retries cfg)"
  have m: "int (0 + ?m) = max_retries cfg" and pos: "0 < ?m" using assms(1) by simp_all
  have bound: "calls nm (snd (retry_operation cfg (invoke nm oracle) w)) \<le> calls nm w + ?m"
    unfolding retry_operation_def by (rule retry_attempts_calls_le)
  have succ: "fst (retry_operation cfg (invoke nm oracle) w) = Inr (Some v)
            \<and> calls nm (snd (retry_operation cfg (invoke nm oracle) w)) = calls nm w + k + 1"
    if "k < ?m" "\<forall>j<k. isl (oracle (calls nm w + j))" "oracle (calls nm w + k) = Inr v"
    for k v
    unfolding retry_operation_def
    using retry_attempts_success [OF m assms(2) that] .
  have fail: "fst (retry_operation cfg (invoke nm oracle) w)
                = Inl (projl (oracle (calls nm w + ?m - 1)))
            \<and> calls nm (snd (retry_operation cfg (invoke nm oracle) w)) = calls nm w + ?m"
    if "\<forall>j < ?m. isl (oracle (calls nm w + j))"
    unfolding retry_operation_def
    using retry_attempts_exhausted [OF m assms(2) pos that] .
  have three: "fst (retry_operation cfg (invoke nm oracle) w) = Inr (Some r)
            \<and> calls nm (snd (retry_operation cfg (invoke nm oracle) w)) = calls nm w + 3"
    if h: "max_retries cfg = 3" "isl (oracle (calls nm w))" "isl (oracle (calls nm w + 1))"
      "oracle (calls nm w + 2) = Inr r"
  proof -
    have "\<forall>j<2. isl (oracle (calls nm w + j))"
      using h(2,3) by (auto simp: less_Suc_eq numeral_2_eq_2)
    with succ [of 2 r] h(1,4) show ?thesis by simp
  qed
  show ?thesis using bound succ fail three by blast
qed

theorem retry_operation_bounded_witness:
  "fst (retry_operation example_config (invoke GetNewestIndex flaky) (init_world None))
     = Inr (Some 7)
   \<and> calls GetNewestIndex
       (snd (retry_operation example_config (invoke GetNewestIndex flaky) (init_world None)))
     = 3"
  using retry_operation_bounded [of example_config GetNewestIndex flaky "init_world None" 7]
  by (simp add: example_config_def flaky_def init_world_def calls_def)

lemma store_emit [simp]: "store (emit es w) = store w"
  by (simp add: store_def)

lemma emit_emit [simp]: "emit es (emit es' w) = emit (es' @ es) w"
  by (simp add: emit_def)

lemma retry_attempts_frame:
  "store (snd (retry_attempts cfg attempt n (invoke nm oracle) w)) = store w
   \<and> (nm' \<noteq> nm \<longrightarrow>
        calls nm' (snd (retry_attempts cfg attempt n (invoke nm oracle) w)) = calls nm' w)"
proof (induction n arbitrary: attempt w)
  case 0
  then show ?case by simp
next
  case (Suc n)
  have p: "invoke nm oracle w = (oracle (calls nm w), emit [Call nm] w)"
    by (simp add: invoke_def)
  show ?case
  proof (cases "oracle (calls nm w)")
    case (Inl e)
    let ?w = "emit [Warning e, Sleep (retry_delay cfg)] (emit [Call nm] w)"
    from Suc.IH [of "Suc attempt" ?w] Inl p show ?thesis by simp
  next
    case (Inr v)
    with p show ?thesis by simp
  qed
qed

lemma retry_operation_store [simp]:
  "store (snd (retry_operation cfg (invoke nm oracle) w)) = store w"
  unfolding retry_operation_def using retry_attempts_frame by blast

lemma retry_operation_calls_other:
  "nm' \<noteq> nm \<Longrightarrow> calls nm' (snd (retry_operation cfg (invoke nm oracle) w)) = calls nm' w"
  unfolding retry_operation_def using retry_attempts_frame by blast

lemma retry_attempts_some:
  "fst (retry_attempts cfg attempt n (invoke nm oracle) w) = Inr (Some v)
     \<Longrightarrow> \<exists>k. oracle k = Inr v"
proof (induction n arbitrary: attempt w)
  case 0
  then show ?case by simp
next
  case (Suc n)
  have p: "invoke nm oracle w = (oracle (calls nm w), emit [Call nm] w)"
    by (simp add: invoke_def)
  show ?case
  proof (cases "oracle (calls nm w)")
    case (Inl e)
    with Suc.prems p Suc.IH show ?thesis by (auto split: if_splits)
  next
    case (Inr v')
    with Suc.prems p show ?thesis by auto
  qed
qed

lemma retry_operation_first:
  assumes "0 < max_retries cfg" and "oracle (calls nm w) = Inr v"
  shows "retry_operation cfg (invoke nm oracle) w = (Inr (Some v), emit [Call nm] w)"
proof -
  obtain n where n: "nat (max_retries cfg) = Suc n"
    using assms(1) by (cases "nat (max_retries cfg)") auto
  have p: "invoke nm oracle w = (Inr v, emit [Call nm] w)"
    using assms(2) by (simp add: invoke_def)
  show ?thesis unfolding retry_operation_def n using p by simp
qed

lemma process_post_index:
  "process_post env cfg ls w = (r, ls', w') \<Longrightarrow> current_index ls' = current_index ls"
  by (auto simp: process_post_def Let_def
           split: prod.splits sum.splits option.splits if_splits)

lemma crawl_step_index:
  "crawl_step env cfg ls w = (ls', w') \<Longrightarrow> current_index ls' = current_index ls - 1"
  by (auto simp: crawl_step_def split: prod.splits sum.splits dest: process_post_index)

lemma crawl_step_fst_index:
  "current_index (fst (crawl_step env cfg ls w)) = current_index ls - 1"
  using crawl_step_index [of env cfg ls w] by (cases "crawl_step env cfg ls w") simp

lemma crawl_loop_stop: "current_index ls \<le> 0 \<Longrightarrow> crawl_loop env cfg ls w = (ls, w)"
  by simp

lemma crawl_loop_go:
  "0 < current_index ls \<Longrightarrow>
     crawl_loop env cfg ls w
       = crawl_loop env cfg (fst (crawl_step env cfg ls w)) (snd (crawl_step env cfg ls w))"
  by (subst crawl_loop.simps) (simp add: case_prod_unfold)

lemma visited_stop: "current_index ls \<le> 0 \<Longrightarrow> visited env cfg ls w = []"
  by simp

lemma visited_go:
  "0 < current_index ls \<Longrightarrow>
     visited env cfg ls w
       = current_index ls
           # visited env cfg (fst (crawl_step env cfg ls w)) (snd (crawl_step env cfg ls w))"
  by (subst visited.simps) (simp add: case_prod_unfold)

declare crawl_loop.simps [simp del] visited.simps [simp del]

lemma rev_upto_step: "0 < (s::int) \<Longrightarrow> rev [1..s] = s # rev [1..s - 1]"
  by (simp add: upto_rec2)

lemma traversal_indices:
  "current_index ls = int n \<Longrightarrow>
     visited env cfg ls w = rev [1..int n]
     \<and> crawl_loop env cfg ls w = ((\<lambda>(l, v). crawl_step env cfg l v) ^^ n) (ls, w)
     \<and> current_index (fst (crawl_loop env cfg ls w)) = 0"
proof (induction n arbitrary: ls w)
  case 0
  then show ?case by (simp add: crawl_loop_stop visited_stop)
next
  case (Suc n)
  let ?ls = "fst (crawl_step env cfg ls w)" and ?w = "snd (crawl_step env cfg ls w)"
  have pos: "0 < current_index ls" using Suc.prems by simp
  have "current_index ?ls = int n"
    using Suc.prems by (simp add: crawl_step_fst_index)
  note ih0 = Suc.IH [OF this, of ?w]
  have ih: "visited env cfg ?ls ?w = rev [1..int n]"
    "crawl_loop env cfg ?ls ?w = ((\<lambda>(l, v). crawl_step env cfg l v) ^^ n) (?ls, ?w)"
    "current_index (fst (crawl_loop env cfg ?ls ?w)) = 0"
    using ih0 by blast+
  have "visited env cfg ls w = rev [1..int (Suc n)]"
    using visited_go [OF pos, of env cfg w] ih(1) Suc.prems rev_upto_step [of "int (Suc n)"]
    by simp
  moreover have "crawl_loop env cfg ls w
      = ((\<lambda>(l, v). crawl_step env cfg l v) ^^ Suc n) (ls, w)"
  proof -
    have "((\<lambda>(l, v). crawl_step env cfg l v) ^^ Suc n) (ls, w)
        = ((\<lambda>(l, v). crawl_step env cfg l v) ^^ n) (?ls, ?w)"
      by (simp only: funpow_Suc_right o_apply) simp
    with crawl_loop_go [OF pos, of env cfg w] ih(2) show ?thesis by simp
  qed
  moreover have "current_index (fst (crawl_loop env cfg ls w)) = 0"
    using crawl_loop_go [OF pos, of env cfg w] ih(3) by simp
  ultimately show ?case by blast
qed


lemma save_workbook_calls:
  "nm \<noteq> Save \<Longrightarrow> calls nm (snd (save_workbook env w)) = calls nm w"
  by (auto simp: save_workbook_def invoke_eq split: option.splits sum.splits)

lemma save_daily_count_calls:
  "nm \<noteq> Save \<Longrightarrow> calls nm (snd (save_daily_count env d c i w)) = calls nm w"
  using save_workbook_calls [of nm env]
  by (auto simp: save_daily_count_def split: option.splits sum.splits prod.splits)
     (metis calls_sheet_update snd_conv)+

lemma load_progress_calls:
  "nm \<noteq> Save \<Longrightarrow> calls nm (snd (load_progress env cfg w)) = calls nm w"
  using save_workbook_calls [of nm env]
  by (auto simp: load_progress_def Let_def split: option.splits sum.splits)

lemma process_post_calls:
  assumes "nm \<noteq> Save" and "nm \<noteq> GetPost (current_index ls)"
  shows "calls nm (snd (snd (process_post env cfg ls w))) = calls nm w"
proof -
  let ?r = "retry_operation cfg (ptt_get_post env (board_name cfg) (current_index ls)) w"
  have r: "calls nm (snd ?r) = calls nm w"
    unfolding ptt_get_post_def using assms(2) by (rule retry_operation_calls_other)
  have s: "\<And>d c i. calls nm (snd (save_daily_count env d c i (snd ?r))) = calls nm w"
    using save_daily_count_calls [OF assms(1)] r by simp
  show ?thesis
    unfolding process_post_def using r s
    by (cases ?r) (auto simp: Let_def split: sum.splits option.splits prod.splits,
                   (metis snd_conv)+)
qed

lemma crawl_step_calls:
  assumes "nm \<noteq> Save" and "nm \<noteq> GetPost (current_index ls)"
  shows "calls nm (snd (crawl_step env cfg ls w)) = calls nm w"
  using process_post_calls [OF assms, of env cfg w]
  by (cases "process_post env cfg ls w")
     (auto simp: crawl_step_def split: sum.splits)

lemma crawl_loop_calls_logout:
  "current_index ls = int n \<Longrightarrow>
     calls Logout (snd (crawl_loop env cfg ls w)) = calls Logout w"
proof (induction n arbitrary: ls w)
  case 0
  then show ?case by (simp add: crawl_loop_stop)
next
  case (Suc n)
  have pos: "0 < current_index ls" using Suc.prems by simp
  have "current_index (fst (crawl_step env cfg ls w)) = int n"
    using Suc.prems by (simp add: crawl_step_fst_index)
  from Suc.IH [OF this, of "snd (crawl_step env cfg ls w)"]
  show ?case
    using crawl_loop_go [OF pos, of env cfg w] crawl_step_calls [of Logout ls env cfg w]
    by simp
qed

lemma crawl_loop_logout:
  "calls Logout (snd (crawl_loop env cfg ls w)) = calls Logout w"
proof (cases "0 \<le> current_index ls")
  case True
  then have "current_index ls = int (nat (current_index ls))" by simp
  then show ?thesis by (rule crawl_loop_calls_logout)
next
  case False
  then show ?thesis by (simp add: crawl_loop_stop)
qed

lemma final_flush_calls:
  "nm \<noteq> Save \<Longrightarrow> calls nm (snd (final_flush env ls w)) = calls nm w"
  by (simp add: final_flush_def save_daily_count_calls split: option.splits)

lemma traverse_logout:
  "calls Logout (snd (traverse env cfg index w)) = calls Logout w"
proof (cases index)
  case None
  then show ?thesis by (simp add: traverse_def)
next
  case (Some i)
  let ?l = "crawl_loop env cfg
              \<lparr>current_index = i, current_date = None, daily_count = Map.empty\<rparr> w"
  have "calls Logout (snd (final_flush env (fst ?l) (snd ?l))) = calls Logout w"
    by (simp add: final_flush_calls crawl_loop_logout)
  then show ?thesis
    using Some by (auto simp: traverse_def split: prod.splits sum.splits)
qed

lemma crawl_start_logout:
  "calls Logout (snd (crawl_start env cfg w)) = calls Logout w"
proof -
  let ?w1 = "snd (load_progress env cfg w)"
  let ?r2 = "retry_operation cfg (ptt_login env (ptt_id cfg) (ptt_pwd cfg)) ?w1"
  let ?r3 = "retry_operation cfg (ptt_get_newest_index env (board_name cfg))
               (emit [Info LoggedIn] (snd ?r2))"
  have 1: "calls Logout ?w1 = calls Logout w" by (simp add: load_progress_calls)
  have 2: "calls Logout (snd ?r2) = calls Logout w"
    unfolding ptt_login_def using 1 by (simp add: retry_operation_calls_other)
  have 3: "calls Logout (snd ?r3) = calls Logout w"
    unfolding ptt_get_newest_index_def using 2 by (simp add: retry_operation_calls_other)
  show ?thesis
    unfolding crawl_start_def using 1 2 3
    by (cases "load_progress env cfg w"; cases ?r2; cases ?r3)
       (auto split: sum.splits)
qed

lemma crawl_body_logout:
  "calls Logout (snd (crawl_body env cfg w)) = calls Logout w"
  using crawl_start_logout [of env cfg w] traverse_logout [of env cfg]
  by (cases "crawl_start env cfg w") (auto simp: crawl_body_def split: sum.splits)


section \<open>The traversal visits each index once, downwards\<close>

text \<open>
  Claim C7. From any starting index \<open>S \<ge> 0\<close> the loop body runs at exactly the indices
  \<open>S, S - 1, ..., 1\<close>, in this order: every iteration, whatever its outcome, lowers the index
  by one; the loop is the body iterated once per visited index and it ends with the index
  at 0, so no index below 1 is visited. (Termination itself is the termination proof of
  \<open>crawl_loop\<close>.)
\<close>

theorem traversal_visits_each_index_once:
  assumes "0 \<le> S" and "current_index ls = S"
  shows "visited env cfg ls w = rev [1..S]
       \<and> crawl_loop env cfg ls w
           = ((\<lambda>(l, v). crawl_step env cfg l v) ^^ length (visited env cfg ls w)) (ls, w)
       \<and> current_index (fst (crawl_loop env cfg ls w)) = 0
       \<and> current_index (fst (crawl_step env cfg ls w)) = current_index ls - 1"
proof -
  have n: "current_index ls = int (nat S)" using assms by simp
  have len: "length (rev [1..S]) = nat S" by simp
  note t = traversal_indices [OF n, of env cfg w]
  have v: "visited env cfg ls w = rev [1..S]" using t assms(1) by simp
  have l: "crawl_loop env cfg ls w
             = ((\<lambda>(l, v). crawl_step env cfg l v) ^^ nat S) (ls, w)"
    using t by blast
  have z: "current_index (fst (crawl_loop env cfg ls w)) = 0" using t by blast
  show ?thesis
    unfolding v len using l z crawl_step_fst_index [of env cfg ls w] by (intro conjI) auto
qed

theorem traversal_visits_each_index_once_witness:
  "visited example_env example_config
      \<lparr>current_index = 3, current_date = None, daily_count = Map.empty\<rparr> (init_world None)
     = [3, 2, 1]
   \<and> current_index (fst (crawl_loop example_env example_config
         \<lparr>current_index = 3, current_date = None, daily_count = Map.empty\<rparr>
         (init_world None))) = 0"
proof -
  let ?ls = "\<lparr>current_index = 3, current_date = None, daily_count = Map.empty\<rparr>"
  have a: "(0::int) \<le> 3" by simp
  have b: "current_index ?ls = 3" by simp
  have u: "rev [1..3::int] = [3, 2, 1]" by (simp add: upto.simps)
  note t = traversal_visits_each_index_once
             [OF a b, of example_env example_config "init_world None"]
  show ?thesis using t unfolding u by blast
qed

lemma close_session_calls:
  "calls Logout (close_session env w) = calls Logout w + 1"
  by (simp add: close_session_def ptt_logout_def invoke_eq split: sum.splits)

lemma close_session_last:
  "last (events (close_session env w))
     = (case logout env (calls Logout w) of Inl e \<Rightarrow> ErrorLogout e | Inr u \<Rightarrow> Info LoggedOut)"
  by (simp add: close_session_def ptt_logout_def invoke_eq split: sum.splits)

section \<open>The session is closed exactly once\<close>

text \<open>
  Claim C8. Whatever the environment and the starting state, that is on every exit path of
  \<open>crawl\<close> (normal completion, a fatal error while loading, logging in or asking the newest
  index, an exception of the traversal), \<open>logout\<close> is invoked exactly once. The outcome of
  \<open>crawl\<close> is the outcome of its body: a failing \<open>logout\<close> is logged as the last event and
  never replaces it.
\<close>

theorem session_closed_exactly_once:
  "calls Logout (snd (crawl env cfg w)) = calls Logout w + 1
   \<and> fst (crawl env cfg w) = fst (crawl_body env cfg w)
   \<and> last (events (snd (crawl env cfg w)))
       = (case logout env (calls Logout w) of
            Inl e \<Rightarrow> ErrorLogout e | Inr u \<Rightarrow> Info LoggedOut)"
proof -
  obtain r w1 where b: "crawl_body env cfg w = (r, w1)" by (cases "crawl_body env cfg w")
  have l: "calls Logout w1 = calls Logout w" using crawl_body_logout [of env cfg w] b by simp
  show ?thesis
  proof (cases r)
    case (Inl e)
    with b l show ?thesis
      by (simp add: crawl_def close_session_calls close_session_last)
  next
    case (Inr u)
    with b l show ?thesis
      by (simp add: crawl_def close_session_calls close_session_last)
  qed
qed

lemma store_disk: "store w' = store w \<Longrightarrow> disk w' = disk w"
  and store_sheet: "store w' = store w \<Longrightarrow> sheet w' = sheet w"
  and store_start_index: "store w' = store w \<Longrightarrow> start_index w' = start_index w"
  by (simp_all add: store_def)

lemma retry_operation_never:
  assumes "\<forall>k. isl (oracle k)"
  shows "fst (retry_operation cfg (invoke nm oracle) w) \<noteq> Inr (Some v)"
proof
  assume "fst (retry_operation cfg (invoke nm oracle) w) = Inr (Some v)"
  then have "\<exists>k. oracle k = Inr v"
    unfolding retry_operation_def by (rule retry_attempts_some)
  with assms show False by (metis sum.disc(2))
qed

text \<open>A fetch that never answers: the body raises, locals and store stay.\<close>

lemma process_post_unreachable:
  assumes "\<forall>k. isl (get_post env (board_name cfg) (current_index ls) k)"
  shows "\<exists>e w'. process_post env cfg ls w = (Inl e, ls, w') \<and> store w' = store w
           \<and> calls Save w' = calls Save w"
proof -
  let ?r = "retry_operation cfg (ptt_get_post env (board_name cfg) (current_index ls)) w"
  have n: "\<And>v. fst ?r \<noteq> Inr (Some v)"
    unfolding ptt_get_post_def using assms by (rule retry_operation_never)
  have s: "store (snd ?r) = store w" "calls Save (snd ?r) = calls Save w"
    unfolding ptt_get_post_def by (simp_all add: retry_operation_calls_other)
  obtain r w1 where r: "?r = (r, w1)" by (cases ?r)
  show ?thesis
  proof (cases r)
    case (Inl e)
    with r s show ?thesis by (simp add: process_post_def)
  next
    case (Inr o1)
    with n r have "o1 = None" by (cases o1) auto
    with Inr r s show ?thesis by (simp add: process_post_def)
  qed
qed

lemma crawl_step_unreachable:
  assumes "\<forall>k. isl (get_post env (board_name cfg) (current_index ls) k)"
  shows "\<exists>e w'. crawl_step env cfg ls w
            = (ls\<lparr>current_index := current_index ls - 1\<rparr>, w')
          \<and> store w' = store w \<and> calls Save w' = calls Save w
          \<and> events w' = events (snd (snd (process_post env cfg ls w)))
                          @ [ErrorIndex (current_index ls) e, PbarUpdate]
          \<and> fst (process_post env cfg ls w) = Inl e"
proof -
  from process_post_unreachable [OF assms, of w]
  obtain e w1 where p: "process_post env cfg ls w = (Inl e, ls, w1)" "store w1 = store w"
    "calls Save w1 = calls Save w"
    by blast
  then show ?thesis by (simp add: crawl_step_def)
qed

lemma crawl_loop_unreachable:
  assumes "\<forall>i k. isl (get_post env (board_name cfg) i k)"
  shows "current_index ls = int n \<Longrightarrow>
     \<exists>w'. crawl_loop env cfg ls w = (ls\<lparr>current_index := 0\<rparr>, w') \<and> store w' = store w
          \<and> calls Save w' = calls Save w"
proof (induction n arbitrary: ls w)
  case 0
  then show ?case by (simp add: crawl_loop_stop)
next
  case (Suc n)
  have pos: "0 < current_index ls" using Suc.prems by simp
  from crawl_step_unreachable [of env cfg ls w] assms
  obtain w1 where s: "crawl_step env cfg ls w = (ls\<lparr>current_index := current_index ls - 1\<rparr>, w1)"
    "store w1 = store w" "calls Save w1 = calls Save w" by blast
  have "current_index (ls\<lparr>current_index := current_index ls - 1\<rparr>) = int n"
    using Suc.prems by simp
  from Suc.IH [OF this, of w1] s show ?case
    using crawl_loop_go [OF pos, of env cfg w] by auto
qed

lemma close_session_store:
  "disk (close_session env w) = disk w \<and> sheet (close_session env w) = sheet w
   \<and> start_index (close_session env w) = start_index w
   \<and> calls Save (close_session env w) = calls Save w"
  by (simp add: close_session_def ptt_logout_def invoke_eq split: sum.splits)


section \<open>A run in which no post can be fetched\<close>

text \<open>
  Claim C10. When every call of \<open>get_post\<close> fails and the start of \<open>crawl\<close> has chosen an
  index \<open>S\<close>, the run ends without an exception; the file and the sheet are what they were
  before the traversal and the workbook is not saved again (no row is appended); the loop
  ends with no active day, which is what makes the final flush a no-op, and with the index
  at 0 (at \<open>S\<close> itself when \<open>S\<close> is negative and the loop does not run).
\<close>

theorem no_fetch_succeeds_no_row:
  assumes "\<forall>i k. isl (get_post env (board_name cfg) i k)"
    and "crawl_start env cfg w = (Inr (Some S), w1)"
  shows "fst (crawl env cfg w) = Inr ()
       \<and> disk (snd (crawl env cfg w)) = disk w1
       \<and> sheet (snd (crawl env cfg w)) = sheet w1
       \<and> calls Save (snd (crawl env cfg w)) = calls Save w1
       \<and> current_date (fst (crawl_loop env cfg
            \<lparr>current_index = S, current_date = None, daily_count = Map.empty\<rparr> w1)) = None
       \<and> current_index (fst (crawl_loop env cfg
            \<lparr>current_index = S, current_date = None, daily_count = Map.empty\<rparr> w1))
           = min S 0"
proof -
  let ?ls = "\<lparr>current_index = S, current_date = None, daily_count = Map.empty\<rparr>"
  have "\<exists>w2. crawl_loop env cfg ?ls w1 = (?ls\<lparr>current_index := min S 0\<rparr>, w2)
          \<and> store w2 = store w1 \<and> calls Save w2 = calls Save w1"
  proof (cases "0 \<le> S")
    case True
    then have "current_index ?ls = int (nat S)" by simp
    from crawl_loop_unreachable [OF assms(1) this, of w1] True show ?thesis by simp
  next
    case False
    then show ?thesis by (simp add: crawl_loop_stop)
  qed
  then obtain w2 where l: "crawl_loop env cfg ?ls w1 = (?ls\<lparr>current_index := min S 0\<rparr>, w2)"
    and s: "store w2 = store w1" "calls Save w2 = calls Save w1" by blast
  have b: "crawl_body env cfg w = (Inr (), emit [Info AllSaved] w2)"
    using assms(2) l by (simp add: crawl_body_def traverse_def final_flush_def)
  have c: "crawl env cfg w = (Inr (), close_session env (emit [Info AllSaved] w2))"
    using b by (simp add: crawl_def)
  show ?thesis
    using c l s by (simp add: close_session_store store_disk [OF s(1)] store_sheet [OF s(1)])
qed

theorem no_fetch_succeeds_no_row_witness:
  "fst (crawl unreachable_env example_config (init_world None)) = Inr ()
   \<and> disk (snd (crawl unreachable_env example_config (init_world None)))
       = Some [header_row]"
proof -
  let ?w1 = "snd (crawl_start unreachable_env example_config (init_world None))"
  have a: "\<forall>i k. isl (get_post unreachable_env (board_name example_config) i k)"
    by (simp add: unreachable_env_def)
  have "fst (crawl_start unreachable_env example_config (init_world None)) = Inr (Some 5)"
    by code_simp
  then have b: "crawl_start unreachable_env example_config (init_world None)
                  = (Inr (Some 5), ?w1)"
    by (simp add: prod_eq_iff)
  have d: "disk ?w1 = Some [header_row]" by code_simp
  from no_fetch_succeeds_no_row [OF a b] d show ?thesis by simp
qed

lemma progress_dates_wide:
  "\<forall>r \<in> set rs. 3 \<le> length r \<Longrightarrow>
     progress_dates rs
       = Inr (map (\<lambda>r. (r ! 0, r ! 2)) (filter (\<lambda>r. truthy (r ! 0) \<and> truthy (r ! 2)) rs))"
  by (induction rs) (auto simp: cell_at_def)

lemma save_workbook_ok:
  assumes "sheet w = Some rows" and "workbook_save env (calls Save w) = Inr ()"
  shows "save_workbook env w = (Inr (), (emit [Call Save] w)\<lparr>disk := Some rows\<rparr>)"
  using assms by (simp add: save_workbook_def invoke_eq)

lemma save_workbook_sheet [simp]: "sheet (snd (save_workbook env w)) = sheet w"
  by (simp add: save_workbook_def invoke_eq split: option.splits sum.splits)

section \<open>Loading the progress\<close>

text \<open>
  Claim C6. \<open>load_progress\<close> in its two cases. Without a file (and with a save that
  succeeds) it creates the file with the header row only and leaves the cursor as it is,
  which for a new crawler is empty: no \<open>start_date\<close>, no \<open>start_index\<close>. With a file whose
  rows have the three columns and where at least one data row has both a date and an index,
  the cursor comes from the last such row (holding a date text that parses and an integer
  index): \<open>start_index\<close> is its earliest index minus 1 and \<open>start_date\<close> is its date; the
  file is left as it is.
\<close>

theorem load_progress_cursor:
  "(disk w = None \<and> workbook_save env (calls Save w) = Inr ()
      \<longrightarrow> fst (load_progress env cfg w) = Inr ()
        \<and> disk (snd (load_progress env cfg w)) = Some [header_row]
        \<and> sheet (snd (load_progress env cfg w)) = Some [header_row]
        \<and> start_date (snd (load_progress env cfg w)) = start_date w
        \<and> start_index (snd (load_progress env cfg w)) = start_index w)
   \<and> start_date (init_world None) = None \<and> start_index (init_world None) = None
   \<and> (disk w = Some rows \<and> (\<forall>r \<in> set (drop 1 rows). 3 \<le> length r)
       \<and> filter (\<lambda>r. truthy (r ! 0) \<and> truthy (r ! 2)) (drop 1 rows) = valid \<and> valid \<noteq> []
       \<and> last valid ! 0 = CStr s \<and> strptime_ymd env s = Some d \<and> last valid ! 2 = CInt e
      \<longrightarrow> fst (load_progress env cfg w) = Inr ()
        \<and> start_index (snd (load_progress env cfg w)) = Some (e - 1)
        \<and> start_date (snd (load_progress env cfg w)) = Some d
        \<and> sheet (snd (load_progress env cfg w)) = Some rows
        \<and> disk (snd (load_progress env cfg w)) = Some rows)"
proof (intro conjI impI)
  assume a: "disk w = None \<and> workbook_save env (calls Save w) = Inr ()"
  let ?w = "w\<lparr>sheet := Some [header_row]\<rparr>"
  have "save_workbook env ?w = (Inr (), (emit [Call Save] ?w)\<lparr>disk := Some [header_row]\<rparr>)"
    using a by (intro save_workbook_ok) simp_all
  then have l: "load_progress env cfg w
      = (Inr (), (emit [Call Save] ?w)\<lparr>disk := Some [header_row]\<rparr>)"
    using a by (simp add: load_progress_def)
  show "fst (load_progress env cfg w) = Inr ()"
    "disk (snd (load_progress env cfg w)) = Some [header_row]"
    "sheet (snd (load_progress env cfg w)) = Some [header_row]"
    "start_date (snd (load_progress env cfg w)) = start_date w"
    "start_index (snd (load_progress env cfg w)) = start_index w"
    unfolding l by simp_all
next
  show "start_date (init_world None) = None" "start_index (init_world None) = None"
    by (simp_all add: init_world_def)
next
  assume b: "disk w = Some rows \<and> (\<forall>r \<in> set (drop 1 rows). 3 \<le> length r)
       \<and> filter (\<lambda>r. truthy (r ! 0) \<and> truthy (r ! 2)) (drop 1 rows) = valid \<and> valid \<noteq> []
       \<and> last valid ! 0 = CStr s \<and> strptime_ymd env s = Some d \<and> last valid ! 2 = CInt e"
  then have p: "progress_dates (drop 1 rows) = Inr (map (\<lambda>r. (r ! 0, r ! 2)) valid)"
    using progress_dates_wide [of "drop 1 rows"] by simp
  have l: "last (map (\<lambda>r. (r ! 0, r ! 2)) valid) = (CStr s, CInt e)"
    using b by (simp add: last_map)
  have "load_progress env cfg w
      = (Inr (), emit [Info (Resume d (e - 1))]
                   (w\<lparr>sheet := Some rows, start_date := Some d, start_index := Some (e - 1)\<rparr>))"
    using b p l by (simp add: load_progress_def parse_date_cell_def decrement_cell_def)
  then show "fst (load_progress env cfg w) = Inr ()"
    "start_index (snd (load_progress env cfg w)) = Some (e - 1)"
    "start_date (snd (load_progress env cfg w)) = Some d"
    "sheet (snd (load_progress env cfg w)) = Some rows"
    "disk (snd (load_progress env cfg w)) = Some rows"
    using b by simp_all
qed

theorem load_progress_cursor_witness:
  "fst (load_progress example_env example_config (init_world None)) = Inr ()
   \<and> disk (snd (load_progress example_env example_config (init_world None)))
       = Some [header_row]
   \<and> start_index (snd (load_progress example_env example_config (init_world None))) = None
   \<and> start_index (snd (load_progress example_env example_config
         (init_world (Some partial_table)))) = Some 3
   \<and> start_date (snd (load_progress example_env example_config
         (init_world (Some partial_table)))) = Some 738888"
proof -
  have a: "disk (init_world None) = None
      \<and> workbook_save example_env (calls Save (init_world None)) = Inr ()"
    by (simp add: init_world_def example_env_def)
  have b: "disk (init_world (Some partial_table)) = Some partial_table
      \<and> (\<forall>r \<in> set (drop 1 partial_table). 3 \<le> length r)
      \<and> filter (\<lambda>r. truthy (r ! 0) \<and> truthy (r ! 2)) (drop 1 partial_table)
          = [[CStr ''2024-01-03'', CInt 2, CInt 4]]
      \<and> [[CStr ''2024-01-03'', CInt 2, CInt 4]] \<noteq> []
      \<and> last [[CStr ''2024-01-03'', CInt 2, CInt 4]] ! 0 = CStr ''2024-01-03''
      \<and> strptime_ymd example_env ''2024-01-03'' = Some 738888
      \<and> last [[CStr ''2024-01-03'', CInt 2, CInt 4]] ! 2 = CInt 4"
    by (simp add: init_world_def partial_table_def example_env_def)
  note t1 = load_progress_cursor [where w = "init_world None" and env = example_env
              and cfg = example_config]
  note t2 = load_progress_cursor [where w = "init_world (Some partial_table)"
              and env = example_env and cfg = example_config and rows = partial_table
              and valid = "[[CStr ''2024-01-03'', CInt 2, CInt 4]]"
              and s = "''2024-01-03''" and d = 738888 and e = 4]
  have "start_index (init_world None) = None" by (simp add: init_world_def)
  with t1 t2 a b show ?thesis by simp
qed

lemma save_daily_count_sheet:
  "sheet w = Some rows \<Longrightarrow>
     sheet (snd (save_daily_count env d c i w)) = Some (rows @ [day_row env (d, c, i)])"
proof -
  assume a: "sheet w = Some rows"
  let ?w = "w\<lparr>sheet := Some (rows @ [[CStr (strftime_ymd env d), CInt c, CInt i]])\<rparr>"
  have "sheet (snd (save_workbook env ?w)) = sheet ?w" by simp
  then show ?thesis
    using a by (cases "save_workbook env ?w")
               (auto simp: save_daily_count_def day_row_def split: sum.splits)
qed

lemma save_daily_count_ok:
  assumes "sheet w = Some rows" and "workbook_save env (calls Save w) = Inr ()"
  shows "fst (save_daily_count env d c i w) = Inr ()
       \<and> disk (snd (save_daily_count env d c i w)) = Some (rows @ [day_row env (d, c, i)])
       \<and> sheet (snd (save_daily_count env d c i w)) = Some (rows @ [day_row env (d, c, i)])"
proof -
  let ?w = "w\<lparr>sheet := Some (rows @ [[CStr (strftime_ymd env d), CInt c, CInt i]])\<rparr>"
  have "save_workbook env ?w
      = (Inr (), (emit [Call Save] ?w)\<lparr>disk := Some (rows @ [[CStr (strftime_ymd env d), CInt c, CInt i]])\<rparr>)"
    using assms by (intro save_workbook_ok) simp_all
  then show ?thesis using assms(1) by (simp add: save_daily_count_def day_row_def)
qed

lemma locals_same_date [simp]:
  "current_date ls = Some cd \<Longrightarrow> ls\<lparr>current_date := Some cd\<rparr> = ls"
  by (cases ls) simp

text \<open>The body once the post is fetched and its date parsed.\<close>

lemma process_post_fetched:
  assumes "retry_operation cfg (ptt_get_post env (board_name cfg) (current_index ls)) w
             = (Inr (Some p), w1)"
    and "post_date_of env p = Some pd"
  shows "process_post env cfg ls w =
     (let cur = (case current_date ls of None \<Rightarrow> pd | Some d \<Rightarrow> d);
          ls1 = ls\<lparr>current_date := Some cur\<rparr>
      in if pd \<noteq> cur then
           (case daily_count ls1 cur of
              None \<Rightarrow> (Inl KeyError, ls1, w1)
            | Some c \<Rightarrow>
                (case save_daily_count env cur c (current_index ls1 + 1) w1 of
                   (Inl e, w2) \<Rightarrow> (Inl e, ls1, w2)
                 | (Inr u, w2) \<Rightarrow>
                     (Inr (),
                      ls1\<lparr>current_date := Some pd,
                          daily_count := (daily_count ls1)(pd \<mapsto> 1)\<rparr>,
                      w2)))
         else
           (Inr (),
            ls1\<lparr>daily_count := (daily_count ls1)(pd \<mapsto>
                   (case daily_count ls1 pd of None \<Rightarrow> 0 | Some c \<Rightarrow> c) + 1)\<rparr>,
            w1))"
  using assms
  by (auto simp: process_post_def post_date_of_def Let_def split: option.splits)

lemma crawl_loop_active_day:
  assumes "current_date ls = None"
    and "current_date (fst (crawl_loop env cfg ls w)) = Some d"
  shows "current_index (fst (crawl_loop env cfg ls w)) = 0"
proof (cases "0 < current_index ls")
  case True
  then have "current_index ls = int (nat (current_index ls))" by simp
  from traversal_indices [OF this, of env cfg w] show ?thesis by blast
next
  case False
  with assms show ?thesis by (simp add: crawl_loop_stop)
qed

section \<open>What a flush carries\<close>

text \<open>
  Claim C9. At a step whose fetched post has a date that differs from the active day, the
  row appended for the finished day holds that day, its count in memory and the current
  index plus 1; when the save of this row succeeds the row is in the file, the new date is
  the active day with count 1 and the index has gone down by one. After the loop, started
  with no active day, a day that is still active is flushed with earliest index 1.
\<close>

theorem day_boundary_flush:
  "(retry_operation cfg (ptt_get_post env (board_name cfg) (current_index ls)) w
        = (Inr (Some p), w1)
      \<and> post_date_of env p = Some pd \<and> current_date ls = Some cd \<and> pd \<noteq> cd
      \<and> daily_count ls cd = Some c \<and> sheet w1 = Some rows
    \<longrightarrow> sheet (snd (crawl_step env cfg ls w))
          = Some (rows @ [day_row env (cd, c, current_index ls + 1)])
       \<and> (workbook_save env (calls Save w1) = Inr ()
           \<longrightarrow> disk (snd (crawl_step env cfg ls w))
                 = Some (rows @ [day_row env (cd, c, current_index ls + 1)])
              \<and> current_date (fst (crawl_step env cfg ls w)) = Some pd
              \<and> daily_count (fst (crawl_step env cfg ls w)) pd = Some 1
              \<and> current_index (fst (crawl_step env cfg ls w)) = current_index ls - 1))
   \<and> (current_date (fst (crawl_loop env cfg
          \<lparr>current_index = S, current_date = None, daily_count = Map.empty\<rparr> w0)) = Some d
      \<and> daily_count (fst (crawl_loop env cfg
          \<lparr>current_index = S, current_date = None, daily_count = Map.empty\<rparr> w0)) d = Some c'
    \<longrightarrow> final_flush env
          (fst (crawl_loop env cfg
             \<lparr>current_index = S, current_date = None, daily_count = Map.empty\<rparr> w0))
          (snd (crawl_loop env cfg
             \<lparr>current_index = S, current_date = None, daily_count = Map.empty\<rparr> w0))
        = save_daily_count env d c' 1
            (snd (crawl_loop env cfg
               \<lparr>current_index = S, current_date = None, daily_count = Map.empty\<rparr> w0)))"
proof (intro conjI impI)
  assume a: "retry_operation cfg (ptt_get_post env (board_name cfg) (current_index ls)) w
        = (Inr (Some p), w1)
      \<and> post_date_of env p = Some pd \<and> current_date ls = Some cd \<and> pd \<noteq> cd
      \<and> daily_count ls cd = Some c \<and> sheet w1 = Some rows"
  let ?s = "save_daily_count env cd c (current_index ls + 1) w1"
  have pp: "process_post env cfg ls w =
      (case ?s of
         (Inl e, w2) \<Rightarrow> (Inl e, ls, w2)
       | (Inr u, w2) \<Rightarrow>
           (Inr (), ls\<lparr>current_date := Some pd, daily_count := (daily_count ls)(pd \<mapsto> 1)\<rparr>, w2))"
  proof -
    have e: "ls\<lparr>current_date := Some cd\<rparr> = ls" using a by simp
    show ?thesis
      using a process_post_fetched [of cfg env ls w p w1 pd]
      by (auto simp: Let_def e split: prod.splits sum.splits)
  qed
  have sh: "sheet (snd ?s) = Some (rows @ [day_row env (cd, c, current_index ls + 1)])"
    using a by (simp add: save_daily_count_sheet)
  show "sheet (snd (crawl_step env cfg ls w))
          = Some (rows @ [day_row env (cd, c, current_index ls + 1)])"
    using sh unfolding crawl_step_def pp
    by (cases ?s) (auto split: sum.splits)
  assume b: "workbook_save env (calls Save w1) = Inr ()"
  have ok: "fst ?s = Inr ()"
    "disk (snd ?s) = Some (rows @ [day_row env (cd, c, current_index ls + 1)])"
    using a b save_daily_count_ok [of w1 rows env cd c "current_index ls + 1"] by simp_all
  show "disk (snd (crawl_step env cfg ls w))
          = Some (rows @ [day_row env (cd, c, current_index ls + 1)])"
    "current_date (fst (crawl_step env cfg ls w)) = Some pd"
    "daily_count (fst (crawl_step env cfg ls w)) pd = Some 1"
    "current_index (fst (crawl_step env cfg ls w)) = current_index ls - 1"
    using ok unfolding crawl_step_def pp
    by (cases ?s; auto split: sum.splits)+
next
  let ?l = "crawl_loop env cfg
              \<lparr>current_index = S, current_date = None, daily_count = Map.empty\<rparr> w0"
  assume c: "current_date (fst ?l) = Some d \<and> daily_count (fst ?l) d = Some c'"
  then have "current_index (fst ?l) = 0"
    using crawl_loop_active_day [where d = d and env = env and cfg = cfg and w = w0] by simp
  with c show "final_flush env (fst ?l) (snd ?l) = save_daily_count env d c' 1 (snd ?l)"
    by (simp add: final_flush_def)
qed

theorem day_boundary_flush_witness:
  "sheet (snd (crawl_step example_env example_config boundary_locals boundary_world))
     = Some [header_row, [CStr ''2024-01-03'', CInt 2, CInt 4]]
   \<and> disk (snd (crawl_step example_env example_config boundary_locals boundary_world))
     = Some [header_row, [CStr ''2024-01-03'', CInt 2, CInt 4]]
   \<and> current_date (fst (crawl_step example_env example_config boundary_locals boundary_world))
     = Some 738887
   \<and> daily_count (fst (crawl_step example_env example_config boundary_locals boundary_world))
       738887 = Some 1
   \<and> final_flush example_env
       (fst (crawl_loop example_env example_config
          \<lparr>current_index = 5, current_date = None, daily_count = Map.empty\<rparr> boundary_world))
       (snd (crawl_loop example_env example_config
          \<lparr>current_index = 5, current_date = None, daily_count = Map.empty\<rparr> boundary_world))
     = save_daily_count example_env 738886 2 1
         (snd (crawl_loop example_env example_config
            \<lparr>current_index = 5, current_date = None, daily_count = Map.empty\<rparr>
            boundary_world))"
proof -
  let ?r = "retry_operation example_config
              (ptt_get_post example_env (board_name example_config)
                 (current_index boundary_locals)) boundary_world"
  let ?p = "[(''date'', ''Tue Jan 02 10:00:00 2024'')]"
  let ?l = "crawl_loop example_env example_config
              \<lparr>current_index = 5, current_date = None, daily_count = Map.empty\<rparr>
              boundary_world"
  have "fst ?r = Inr (Some ?p)" by code_simp
  then have h1: "?r = (Inr (Some ?p), snd ?r)" by (simp add: prod_eq_iff)
  have h2: "post_date_of example_env ?p = Some 738887" by code_simp
  have h3: "current_date boundary_locals = Some 738888" by (simp add: boundary_locals_def)
  have h4: "(738887::int) \<noteq> 738888" by simp
  have h5: "daily_count boundary_locals 738888 = Some 2" by (simp add: boundary_locals_def)
  have h6: "sheet (snd ?r) = Some [header_row]" by code_simp
  have h7: "workbook_save example_env (calls Save (snd ?r)) = Inr ()"
    by (simp add: example_env_def)
  have h8: "current_date (fst ?l) = Some 738886" by code_simp
  have h9: "daily_count (fst ?l) 738886 = Some 2" by code_simp
  have r: "day_row example_env (738888, 2, current_index boundary_locals + 1)
             = [CStr ''2024-01-03'', CInt 2, CInt 4]"
    by (simp add: day_row_def example_env_def boundary_locals_def)
  note t = day_boundary_flush [where cfg = example_config and env = example_env
             and ls = boundary_locals and w = boundary_world and p = ?p and ?w1.0 = "snd ?r"
             and pd = 738887 and cd = 738888 and c = 2 and rows = "[header_row]"
             and S = 5 and ?w0.0 = boundary_world and d = 738886 and c' = 2]
  show ?thesis using t h1 h2 h3 h4 h5 h6 h7 h8 h9 r by simp
qed

section \<open>Resuming at index 0\<close>

text \<open>
  Claim C3 says that a cursor with \<open>start_index = 0\<close> makes the traversal start at 0. The
  script chooses \<open>start_index or latest_index\<close>, and 0 is falsy: with a table whose last row
  has earliest index 1 the cursor is 0, yet the traversal starts at the newest index 5 and
  walks the whole archive again.
\<close>

theorem resume_at_zero_restarts_from_newest:
  "start_index (snd (load_progress example_env example_config
       (init_world (Some finished_table)))) = Some 0
   \<and> fst (crawl_start example_env example_config (init_world (Some finished_table)))
       = Inr (Some 5)
   \<and> visited example_env example_config
       \<lparr>current_index = 5, current_date = None, daily_count = Map.empty\<rparr>
       (snd (crawl_start example_env example_config (init_world (Some finished_table))))
       = [5, 4, 3, 2, 1]"
  by code_simp

section \<open>A save that fails at a day boundary\<close>

text \<open>
  Claim C2 says that a failed append of a day's row aborts the run wherever it happens. A
  failure of the final flush does (last conjunct); a failure at a day boundary inside the
  loop is caught by the handler of the loop body: the run goes on to indices 2 and 1 and
  ends normally, the row of 3 January is appended a second time and 2 January is never
  recorded.
\<close>

theorem failed_append_mid_traversal_is_swallowed:
  "fst (crawl save_fails_once_env example_config (init_world None)) = Inr ()
   \<and> ErrorIndex 3 (IOError ''disk full'')
       \<in> set (events (snd (crawl save_fails_once_env example_config (init_world None))))
   \<and> calls (GetPost 2) (snd (crawl save_fails_once_env example_config (init_world None))) = 1
   \<and> calls (GetPost 1) (snd (crawl save_fails_once_env example_config (init_world None))) = 1
   \<and> disk (snd (crawl save_fails_once_env example_config (init_world None)))
       = Some [header_row, [CStr ''2024-01-03'', CInt 2, CInt 4],
               [CStr ''2024-01-03'', CInt 2, CInt 3], [CStr ''2024-01-01'', CInt 2, CInt 1]]
   \<and> fst (crawl final_save_fails_env example_config (init_world None))
       = Inl (IOError ''disk full'')"
  by code_simp

section \<open>The traversal as a tally\<close>

lemma day_total_simps [simp]:
  "day_total d [] = 0"
  "day_total d ((d', c, e) # T) = (if d' = d then c else 0) + day_total d T"
  by (simp_all add: day_total_def)

lemma upto_Suc_int: "[1..int (Suc n)] = [1..int n] @ [int (Suc n)]"
  by (simp add: upto_rec2)

lemma tally_total:
  "day_total d (tally f act n)
     = (case act of None \<Rightarrow> 0 | Some (cd, c) \<Rightarrow> if cd = d then c else 0)
       + int (length (filter (\<lambda>i. f i = Some d) [1..int n]))"
proof (induction n arbitrary: act)
  case 0
  then show ?case by (simp split: option.splits)
next
  case (Suc n)
  show ?case
    unfolding upto_Suc_int
    by (auto simp: Suc.IH simp del: of_nat_Suc split: option.splits)
qed

lemma day_total_distinct:
  "distinct (map fst T) \<Longrightarrow> (d, c, e) \<in> set T \<Longrightarrow> day_total d T = c"
proof (induction T)
  case Nil
  then show ?case by simp
next
  case (Cons t T)
  obtain d' c' e' where t: "t = (d', c', e')" by (cases t)
  have z: "d' \<notin> fst ` set T \<Longrightarrow> day_total d' T = 0"
    by (induction T) (auto)
  show ?case
  proof (cases "(d, c, e) = t")
    case True
    with Cons.prems t z show ?thesis by auto
  next
    case False
    with Cons.prems have m: "(d, c, e) \<in> set T" by simp
    then have "d \<in> fst ` set T" by force
    with Cons.prems t have "d' \<noteq> d" by auto
    with Cons.IH Cons.prems m t show ?thesis by simp
  qed
qed

text \<open>Dates that do not increase as the index goes down: one entry per date, at its least index.\<close>

lemma tally_monotone:
  assumes "\<forall>i j. 1 \<le> i \<and> i \<le> j \<and> j \<le> int n + 1 \<longrightarrow> g i \<le> g j"
    and "cd = g (int n + 1)"
  shows "distinct (map fst (tally (\<lambda>i. Some (g i)) (Some (cd, c)) n))
       \<and> fst ` set (tally (\<lambda>i. Some (g i)) (Some (cd, c)) n) = g ` {1..int n + 1}
       \<and> (\<forall>(d, c', e) \<in> set (tally (\<lambda>i. Some (g i)) (Some (cd, c)) n).
            1 \<le> e \<and> e \<le> int n + 1 \<and> g e = d
            \<and> (\<forall>i. 1 \<le> i \<and> i \<le> int n + 1 \<and> g i = d \<longrightarrow> e \<le> i))"
  using assms
proof (induction n arbitrary: cd c)
  case 0
  have "{1..1::int} = {1}" by auto
  with 0 show ?case by auto
next
  case (Suc n)
  let ?f = "\<lambda>i. Some (g i)"
  have mono': "\<forall>i j. 1 \<le> i \<and> i \<le> j \<and> j \<le> int n + 1 \<longrightarrow> g i \<le> g j"
    using Suc.prems(1) by auto
  have cd: "cd = g (int n + 2)" using Suc.prems(2) by (simp add: algebra_simps)
  have below: "\<And>i. 1 \<le> i \<Longrightarrow> i \<le> int n + 1 \<Longrightarrow> g i \<le> g (int n + 1)"
    using mono' by auto
  have step: "g (int n + 1) \<le> cd"
    using Suc.prems(1) cd by auto
  have img: "g ` {1..int n + 2} = insert cd (g ` {1..int n + 1})"
  proof -
    have "{1..int n + 2} = insert (int n + 2) {1..int n + 1}" by auto
    then show ?thesis using cd by simp
  qed
  show ?case
  proof (cases "g (int n + 1) = cd")
    case True
    note ih = Suc.IH [OF mono', of cd "c + 1"]
    have t: "tally ?f (Some (cd, c)) (Suc n) = tally ?f (Some (cd, c + 1)) n"
      using True by (simp add: algebra_simps)
    have i1: "g ` {1..int (Suc n) + 1} = g ` {1..int n + 1}"
      using img True by (auto simp: algebra_simps)
    have "\<forall>(d, c', e) \<in> set (tally ?f (Some (cd, c + 1)) n).
            1 \<le> e \<and> e \<le> int (Suc n) + 1 \<and> g e = d
            \<and> (\<forall>i. 1 \<le> i \<and> i \<le> int (Suc n) + 1 \<and> g i = d \<longrightarrow> e \<le> i)"
    proof (clarify)
      fix d c' e
      assume m: "(d, c', e) \<in> set (tally ?f (Some (cd, c + 1)) n)"
      with ih True have e: "1 \<le> e" "e \<le> int n + 1" "g e = d"
        "\<forall>i. 1 \<le> i \<and> i \<le> int n + 1 \<and> g i = d \<longrightarrow> e \<le> i" by auto
      have "e \<le> i" if "1 \<le> i" "i \<le> int (Suc n) + 1" "g i = d" for i
      proof (cases "i \<le> int n + 1")
        case True
        with e that show ?thesis by auto
      next
        case False
        with that e show ?thesis by simp
      qed
      with e show "1 \<le> e \<and> e \<le> int (Suc n) + 1 \<and> g e = d
            \<and> (\<forall>i. 1 \<le> i \<and> i \<le> int (Suc n) + 1 \<and> g i = d \<longrightarrow> e \<le> i)"
        by auto
    qed
    with ih True t i1 show ?thesis by simp
  next
    case False
    let ?pd = "g (int n + 1)"
    note ih = Suc.IH [OF mono', of ?pd 1]
    have t: "tally ?f (Some (cd, c)) (Suc n)
               = (cd, c, int n + 2) # tally ?f (Some (?pd, 1)) n"
      using False by (simp add: algebra_simps)
    have lt: "\<And>i. 1 \<le> i \<Longrightarrow> i \<le> int n + 1 \<Longrightarrow> g i < cd"
      using below step False by force
    have notin: "cd \<notin> g ` {1..int n + 1}"
      using lt by force
    have d1: "distinct (map fst (tally ?f (Some (cd, c)) (Suc n)))"
      using ih notin t by simp
    have d2: "fst ` set (tally ?f (Some (cd, c)) (Suc n)) = g ` {1..int (Suc n) + 1}"
      using ih img t by (simp add: algebra_simps)
    have d3: "\<forall>(d, c', e) \<in> set (tally ?f (Some (cd, c)) (Suc n)).
            1 \<le> e \<and> e \<le> int (Suc n) + 1 \<and> g e = d
            \<and> (\<forall>i. 1 \<le> i \<and> i \<le> int (Suc n) + 1 \<and> g i = d \<longrightarrow> e \<le> i)"
    proof (clarify)
      fix d c' e
      assume m: "(d, c', e) \<in> set (tally ?f (Some (cd, c)) (Suc n))"
      show "1 \<le> e \<and> e \<le> int (Suc n) + 1 \<and> g e = d
            \<and> (\<forall>i. 1 \<le> i \<and> i \<le> int (Suc n) + 1 \<and> g i = d \<longrightarrow> e \<le> i)"
      proof (cases "(d, c', e) = (cd, c, int n + 2)")
        case True
        have "int n + 2 \<le> i" if "1 \<le> i" "i \<le> int (Suc n) + 1" "g i = cd" for i
          using lt [of i] that by force
        with True cd show ?thesis by auto
      next
        case False
        from m have "(d, c', e) \<in> set ((cd, c, int n + 2) # tally ?f (Some (?pd, 1)) n)"
          unfolding t .
        with False have m': "(d, c', e) \<in> set (tally ?f (Some (?pd, 1)) n)" by auto
        with ih have e: "1 \<le> e" "e \<le> int n + 1" "g e = d"
          "\<forall>i. 1 \<le> i \<and> i \<le> int n + 1 \<and> g i = d \<longrightarrow> e \<le> i" by auto
        have "e \<le> i" if "1 \<le> i" "i \<le> int (Suc n) + 1" "g i = d" for i
        proof (cases "i \<le> int n + 1")
          case True
          with e that show ?thesis by auto
        next
          case False
          with that e show ?thesis by simp
        qed
        with e show ?thesis by auto
      qed
    qed
    from d1 d2 d3 show ?thesis by blast
  qed
qed

lemma tracks_index [simp]: "tracks (ls\<lparr>current_index := i\<rparr>) act = tracks ls act"
  by (simp add: tracks_def split: option.splits)

lemma loop_then_flush_stop:
  "current_index ls \<le> 0 \<Longrightarrow> loop_then_flush env cfg ls w = final_flush env ls w"
  by (simp add: loop_then_flush_def crawl_loop_stop)

lemma loop_then_flush_go:
  "0 < current_index ls \<Longrightarrow>
     loop_then_flush env cfg ls w
       = loop_then_flush env cfg (fst (crawl_step env cfg ls w)) (snd (crawl_step env cfg ls w))"
  by (simp add: loop_then_flush_def crawl_loop_go)

text \<open>A step at an index that answers with a post dated \<open>pd\<close>, all saves succeeding.\<close>

lemma crawl_step_answered:
  assumes mr: "0 < max_retries cfg"
    and ans: "answers env cfg (current_index ls) (Some pd)"
    and saves: "\<forall>k. workbook_save env k = Inr ()"
    and tr: "tracks ls act"
    and sh: "sheet w = Some rows" and dk: "disk w = Some rows"
  shows "tracks (fst (crawl_step env cfg ls w))
           (case act of None \<Rightarrow> Some (pd, 1)
            | Some (d, c) \<Rightarrow> if pd = d then Some (d, c + 1) else Some (pd, 1))
       \<and> sheet (snd (crawl_step env cfg ls w))
           = Some (rows @ (case act of None \<Rightarrow> []
                | Some (d, c) \<Rightarrow> if pd = d then []
                     else [day_row env (d, c, current_index ls + 1)]))
       \<and> disk (snd (crawl_step env cfg ls w)) = sheet (snd (crawl_step env cfg ls w))"
proof -
  let ?i = "current_index ls"
  let ?w1 = "emit [Call (GetPost ?i)] w"
  from ans obtain p where p: "get_post env (board_name cfg) ?i (calls (GetPost ?i) w) = Inr p"
    "post_date_of env p = Some pd"
    unfolding answers_def by auto
  have r: "retry_operation cfg (ptt_get_post env (board_name cfg) ?i) w = (Inr (Some p), ?w1)"
    unfolding ptt_get_post_def using mr p(1) by (rule retry_operation_first)
  note pp = process_post_fetched [OF r p(2)]
  show ?thesis
  proof (cases act)
    case None
    with tr have t: "current_date ls = None" "daily_count ls = Map.empty"
      by (simp_all add: tracks_def)
    have "process_post env cfg ls w
        = (Inr (), ls\<lparr>current_date := Some pd, daily_count := [pd \<mapsto> 1]\<rparr>, ?w1)"
      unfolding pp using t by (simp add: Let_def)
    then show ?thesis using None sh dk by (simp add: crawl_step_def tracks_def)
  next
    case (Some a)
    obtain d c where a: "a = (d, c)" by (cases a)
    with Some tr have t: "current_date ls = Some d" "daily_count ls d = Some c"
      by (simp_all add: tracks_def)
    have e: "ls\<lparr>current_date := Some d\<rparr> = ls" using t by simp
    show ?thesis
    proof (cases "pd = d")
      case True
      have "process_post env cfg ls w
          = (Inr (), ls\<lparr>daily_count := (daily_count ls)(d \<mapsto> c + 1)\<rparr>, ?w1)"
        unfolding pp using t True by (simp add: Let_def)
      then show ?thesis using Some a True sh dk t by (simp add: crawl_step_def tracks_def)
    next
      case False
      let ?s = "save_daily_count env d c (?i + 1) ?w1"
      have ok: "fst ?s = Inr ()"
        "disk (snd ?s) = Some (rows @ [day_row env (d, c, ?i + 1)])"
        "sheet (snd ?s) = Some (rows @ [day_row env (d, c, ?i + 1)])"
        using save_daily_count_ok [of ?w1 rows env d c "?i + 1"] sh saves by simp_all
      then obtain w2 where s: "?s = (Inr (), w2)"
        and w2: "disk w2 = Some (rows @ [day_row env (d, c, ?i + 1)])"
          "sheet w2 = Some (rows @ [day_row env (d, c, ?i + 1)])"
        by (cases ?s) auto
      have "process_post env cfg ls w
          = (Inr (), ls\<lparr>current_date := Some pd, daily_count := (daily_count ls)(pd \<mapsto> 1)\<rparr>,
             w2)"
        unfolding pp using t False s e by (simp add: Let_def)
      then show ?thesis using Some a False w2 by (simp add: crawl_step_def tracks_def)
    qed
  qed
qed

text \<open>A step at an index that never answers.\<close>

lemma crawl_step_silent:
  assumes "answers env cfg (current_index ls) None"
  shows "\<exists>e. fst (crawl_step env cfg ls w) = ls\<lparr>current_index := current_index ls - 1\<rparr>
       \<and> store (snd (crawl_step env cfg ls w)) = store w
       \<and> calls Save (snd (crawl_step env cfg ls w)) = calls Save w
       \<and> events (snd (crawl_step env cfg ls w))
           = events (snd (snd (process_post env cfg ls w)))
               @ [ErrorIndex (current_index ls) e, PbarUpdate]"
proof -
  from assms have "\<forall>k. isl (get_post env (board_name cfg) (current_index ls) k)"
    by (simp add: answers_def)
  from crawl_step_unreachable [OF this, of w] show ?thesis by auto
qed

lemma loop_then_flush_tally:
  assumes mr: "0 < max_retries cfg" and saves: "\<forall>k. workbook_save env k = Inr ()"
  shows "\<forall>i. 1 \<le> i \<and> i \<le> int n \<longrightarrow> answers env cfg i (f i) \<Longrightarrow>
     current_index ls = int n \<Longrightarrow> tracks ls act \<Longrightarrow>
     sheet w = Some rows \<Longrightarrow> disk w = Some rows \<Longrightarrow>
       fst (loop_then_flush env cfg ls w) = Inr ()
       \<and> disk (snd (loop_then_flush env cfg ls w))
           = Some (rows @ map (day_row env) (tally f act n))
       \<and> sheet (snd (loop_then_flush env cfg ls w))
           = Some (rows @ map (day_row env) (tally f act n))"
proof (induction n arbitrary: ls w act rows)
  case 0
  show ?case
  proof (cases act)
    case None
    with 0 show ?thesis
      by (simp add: loop_then_flush_stop final_flush_def tracks_def)
  next
    case (Some a)
    obtain d c where a: "a = (d, c)" by (cases a)
    with Some 0 have t: "current_date ls = Some d" "daily_count ls d = Some c"
      by (simp_all add: tracks_def)
    have "final_flush env ls w = save_daily_count env d c 1 w"
      using t 0 by (simp add: final_flush_def)
    with save_daily_count_ok [of w rows env d c 1] 0 saves Some a show ?thesis
      by (simp add: loop_then_flush_stop)
  qed
next
  case (Suc n)
  let ?ls = "fst (crawl_step env cfg ls w)" and ?w = "snd (crawl_step env cfg ls w)"
  have pos: "0 < current_index ls" using Suc.prems(2) by simp
  have go: "loop_then_flush env cfg ls w = loop_then_flush env cfg ?ls ?w"
    using pos by (rule loop_then_flush_go)
  have idx: "current_index ?ls = int n"
    using Suc.prems(2) by (simp add: crawl_step_fst_index)
  have ans': "\<forall>i. 1 \<le> i \<and> i \<le> int n \<longrightarrow> answers env cfg i (f i)"
    using Suc.prems(1) by auto
  have here: "answers env cfg (current_index ls) (f (int (Suc n)))"
    using Suc.prems(1,2) by auto
  show ?case
  proof (cases "f (int (Suc n))")
    case None
    with here crawl_step_silent [of env cfg ls w]
    have s: "?ls = ls\<lparr>current_index := current_index ls - 1\<rparr>" "store ?w = store w"
      by auto
    have tr: "tracks ?ls act" using s(1) Suc.prems(3) by simp
    have sh: "sheet ?w = Some rows" "disk ?w = Some rows"
      using s(2) Suc.prems(4,5) by (simp_all add: store_def)
    from Suc.IH [OF ans' idx tr sh] None show ?thesis unfolding go by simp
  next
    case (Some pd)
    let ?act = "case act of None \<Rightarrow> Some (pd, 1)
            | Some (d, c) \<Rightarrow> if pd = d then Some (d, c + 1) else Some (pd, 1)"
    let ?new = "case act of None \<Rightarrow> []
                | Some (d, c) \<Rightarrow> if pd = d then []
                     else [day_row env (d, c, current_index ls + 1)]"
    from Some here have "answers env cfg (current_index ls) (Some pd)" by simp
    from crawl_step_answered [OF mr this saves Suc.prems(3,4,5)]
    have s: "tracks ?ls ?act" "sheet ?w = Some (rows @ ?new)" "disk ?w = Some (rows @ ?new)"
      by simp_all
    note ih = Suc.IH [OF ans' idx s]
    have "?new @ map (day_row env) (tally f ?act n) = map (day_row env) (tally f act (Suc n))"
      using Some Suc.prems(2) by (auto split: option.splits)
    with ih show ?thesis unfolding go by simp
  qed
qed

lemma load_progress_fresh:
  assumes "disk w = None" and "workbook_save env (calls Save w) = Inr ()"
  shows "load_progress env cfg w
           = (Inr (), (emit [Call Save] (w\<lparr>sheet := Some [header_row]\<rparr>))
                        \<lparr>disk := Some [header_row]\<rparr>)"
proof -
  let ?w = "w\<lparr>sheet := Some [header_row]\<rparr>"
  have "save_workbook env ?w = (Inr (), (emit [Call Save] ?w)\<lparr>disk := Some [header_row]\<rparr>)"
    using assms by (intro save_workbook_ok) simp_all
  then show ?thesis using assms by (simp add: load_progress_def)
qed

lemma crawl_start_fresh:
  assumes "reliable env cfg N"
  shows "\<exists>w1. crawl_start env cfg (init_world None) = (Inr (Some N), w1)
          \<and> sheet w1 = Some [header_row] \<and> disk w1 = Some [header_row]"
proof -
  let ?w0 = "init_world None"
  let ?w1 = "(emit [Call Save] (?w0\<lparr>sheet := Some [header_row]\<rparr>))\<lparr>disk := Some [header_row]\<rparr>"
  let ?w2 = "emit [Call Login] ?w1"
  let ?w3 = "emit [Call GetNewestIndex] (emit [Info LoggedIn] ?w2)"
  from assms have mr: "0 < max_retries cfg"
    and lg: "\<And>k. login env (ptt_id cfg) (ptt_pwd cfg) k = Inr ()"
    and nw: "\<And>k. get_newest_index env (board_name cfg) k = Inr N"
    and sv: "\<And>k. workbook_save env k = Inr ()"
    by (simp_all add: reliable_def)
  have 1: "load_progress env cfg ?w0 = (Inr (), ?w1)"
    using sv by (intro load_progress_fresh) (simp_all add: init_world_def)
  have 2: "retry_operation cfg (ptt_login env (ptt_id cfg) (ptt_pwd cfg)) ?w1
             = (Inr (Some ()), ?w2)"
    unfolding ptt_login_def using mr lg by (rule retry_operation_first)
  have 3: "retry_operation cfg (ptt_get_newest_index env (board_name cfg))
             (emit [Info LoggedIn] ?w2) = (Inr (Some N), ?w3)"
    unfolding ptt_get_newest_index_def using mr nw by (rule retry_operation_first)
  have "crawl_start env cfg ?w0 = (Inr (Some N), emit [Info (Newest (Some N))] ?w3)"
    unfolding crawl_start_def 1 using 2 3 by (simp add: py_or_def init_world_def)
  then show ?thesis by simp
qed

lemma traverse_loop_then_flush:
  "traverse env cfg (Some i) w =
     (case loop_then_flush env cfg
             \<lparr>current_index = i, current_date = None, daily_count = Map.empty\<rparr> w of
        (Inl e, w2) \<Rightarrow> (Inl e, w2)
      | (Inr u, w2) \<Rightarrow> (Inr (), emit [Info AllSaved] w2))"
  by (simp add: traverse_def loop_then_flush_def split: prod.splits)

text \<open>A fresh run over an archive whose indices answer as \<open>f\<close> says writes the tally.\<close>

lemma crawl_fresh_tally:
  assumes rel: "reliable env cfg N" and N: "0 \<le> N"
    and ans: "\<forall>i. 1 \<le> i \<and> i \<le> N \<longrightarrow> answers env cfg i (f i)"
  shows "fst (crawl env cfg (init_world None)) = Inr ()
       \<and> disk (snd (crawl env cfg (init_world None)))
           = Some (header_row # map (day_row env) (tally f None (nat N)))"
proof -
  let ?ls = "\<lparr>current_index = N, current_date = None, daily_count = Map.empty\<rparr>"
  from crawl_start_fresh [OF rel] obtain w1
    where st: "crawl_start env cfg (init_world None) = (Inr (Some N), w1)"
      and w1: "sheet w1 = Some [header_row]" "disk w1 = Some [header_row]" by blast
  from rel have mr: "0 < max_retries cfg" and sv: "\<forall>k. workbook_save env k = Inr ()"
    by (simp_all add: reliable_def)
  have a: "\<forall>i. 1 \<le> i \<and> i \<le> int (nat N) \<longrightarrow> answers env cfg i (f i)"
    using ans N by simp
  have i: "current_index ?ls = int (nat N)" using N by simp
  have t: "tracks ?ls None" by (simp add: tracks_def)
  from loop_then_flush_tally [OF mr sv a i t w1]
  obtain w2 where l: "loop_then_flush env cfg ?ls w1 = (Inr (), w2)"
    and w2: "disk w2 = Some (header_row # map (day_row env) (tally f None (nat N)))"
    by (cases "loop_then_flush env cfg ?ls w1") auto
  have "crawl_body env cfg (init_world None) = (Inr (), emit [Info AllSaved] w2)"
    unfolding crawl_body_def st by (simp add: traverse_loop_then_flush l)
  then have "crawl env cfg (init_world None)
      = (Inr (), close_session env (emit [Info AllSaved] w2))"
    by (simp add: crawl_def)
  then show ?thesis using w2 by (simp add: close_session_store)
qed

lemma tally_dates:
  "(d, c, e) \<in> set (tally f act n) \<Longrightarrow>
     (\<exists>c'. act = Some (d, c')) \<or> (\<exists>i. 1 \<le> i \<and> i \<le> int n \<and> f i = Some d)"
proof (induction n arbitrary: act)
  case 0
  then show ?case by (cases act) auto
next
  case (Suc n)
  have up: "\<exists>i. 1 \<le> i \<and> i \<le> int (Suc n) \<and> f i = Some d"
    if "\<exists>i. 1 \<le> i \<and> i \<le> int n \<and> f i = Some d"
    using that by force
  have here: "\<exists>i. 1 \<le> i \<and> i \<le> int (Suc n) \<and> f i = Some d"
    if "f (int (Suc n)) = Some d"
  proof -
    have "1 \<le> int (Suc n)" "int (Suc n) \<le> int (Suc n)" by simp_all
    with that show ?thesis by blast
  qed
  show ?case
  proof (cases "f (int (Suc n))")
    case None
    with Suc.prems have "(d, c, e) \<in> set (tally f act n)" by simp
    from Suc.IH [OF this] up show ?thesis by blast
  next
    case (Some pd)
    show ?thesis
    proof (cases act)
      case None
      with Some Suc.prems have "(d, c, e) \<in> set (tally f (Some (pd, 1)) n)" by simp
      from Suc.IH [OF this] have "d = pd \<or> (\<exists>i. 1 \<le> i \<and> i \<le> int n \<and> f i = Some d)"
        by auto
      with here Some up show ?thesis by blast
    next
      case act: (Some a)
      obtain cd cc where a: "a = (cd, cc)" by (cases a)
      show ?thesis
      proof (cases "pd = cd")
        case True
        with Some act a Suc.prems have "(d, c, e) \<in> set (tally f (Some (cd, cc + 1)) n)"
          by simp
        from Suc.IH [OF this] have "d = cd \<or> (\<exists>i. 1 \<le> i \<and> i \<le> int n \<and> f i = Some d)"
          by auto
        with act a up show ?thesis by blast
      next
        case False
        with Some act a Suc.prems
        have "d = cd \<or> (d, c, e) \<in> set (tally f (Some (pd, 1)) n)" by auto
        then show ?thesis
        proof
          assume "d = cd"
          with act a show ?thesis by simp
        next
          assume "(d, c, e) \<in> set (tally f (Some (pd, 1)) n)"
          from Suc.IH [OF this]
          have "d = pd \<or> (\<exists>i. 1 \<le> i \<and> i \<le> int n \<and> f i = Some d)" by auto
          with here Some up show ?thesis by blast
        qed
      qed
    qed
  qed
qed

lemma row_count_day_row:
  "row_count s (day_row env (d, c, e)) = (if strftime_ymd env d = s then c else 0)"
  by (simp add: day_row_def)

lemma persisted_rows_total:
  assumes "inj_on (strftime_ymd env) A" and "d \<in> A" and "fst ` set T \<subseteq> A"
  shows "sum_list (map (row_count (strftime_ymd env d)) (map (day_row env) T)) = day_total d T"
  using assms(3)
proof (induction T)
  case Nil
  then show ?case by simp
next
  case (Cons t T)
  obtain d' c e where t: "t = (d', c, e)" by (cases t)
  with Cons.prems have "d' \<in> A" by simp
  with assms(1,2) have "strftime_ymd env d' = strftime_ymd env d \<longleftrightarrow> d' = d"
    by (auto dest: inj_onD)
  with Cons t show ?case by (simp add: row_count_day_row)
qed

lemma length_filter_upto_card:
  "int (length (filter P [1..N])) = int (card {i. 1 \<le> i \<and> i \<le> N \<and> P i})"
proof -
  have "length (filter P [1..N]) = card ({i. P i} \<inter> set [1..N])"
    by (rule distinct_length_filter) simp
  moreover have "{i. P i} \<inter> set [1..N] = {i. 1 \<le> i \<and> i \<le> N \<and> P i}" by auto
  ultimately show ?thesis by simp
qed

text \<open>The count the file holds for a date after a fresh run.\<close>

lemma crawl_fresh_count:
  assumes rel: "reliable env cfg N" and N: "0 \<le> N"
    and ans: "\<forall>i. 1 \<le> i \<and> i \<le> N \<longrightarrow> answers env cfg i (f i)"
    and inj: "inj_on (strftime_ymd env) A" and d: "d \<in> A"
    and A: "\<forall>i d'. 1 \<le> i \<and> i \<le> N \<and> f i = Some d' \<longrightarrow> d' \<in> A"
  shows "persisted_count env d (snd (crawl env cfg (init_world None)))
           = int (card {i. 1 \<le> i \<and> i \<le> N \<and> f i = Some d})"
proof -
  let ?T = "tally f None (nat N)"
  have dk: "disk (snd (crawl env cfg (init_world None)))
              = Some (header_row # map (day_row env) ?T)"
    using crawl_fresh_tally [OF rel N ans] by simp
  have sub: "fst ` set ?T \<subseteq> A"
  proof
    fix x assume "x \<in> fst ` set ?T"
    then obtain c e where "(x, c, e) \<in> set ?T" by force
    from tally_dates [OF this] obtain i where "1 \<le> i" "i \<le> int (nat N)" "f i = Some x"
      by auto
    with A N show "x \<in> A" by auto
  qed
  have "persisted_count env d (snd (crawl env cfg (init_world None))) = day_total d ?T"
    unfolding persisted_count_def dk
    using persisted_rows_total [OF inj d sub] by (simp add: header_row_def)
  also have "\<dots> = int (length (filter (\<lambda>i. f i = Some d) [1..N]))"
    using tally_total [of d f None "nat N"] N by simp
  finally show ?thesis by (simp add: length_filter_upto_card)
qed

lemma example_reliable: "reliable example_env example_config 5"
  by (simp add: reliable_def example_env_def example_config_def)

lemma example_answers:
  "\<forall>i. 1 \<le> i \<and> i \<le> 5 \<longrightarrow> answers example_env example_config i (Some (example_date i))"
  by (simp add: answers_def example_env_def post_date_of_def example_stamp_def
        example_date_def)

lemma card_without_one:
  assumes "1 \<le> k" and "k \<le> (N::int)"
  shows "int (card {i. 1 \<le> i \<and> i \<le> N \<and> (if i = k then None else Some (g i)) = Some (g k)})
           = int (card {i. 1 \<le> i \<and> i \<le> N \<and> g i = g k}) - 1"
proof -
  let ?A = "{i. 1 \<le> i \<and> i \<le> N \<and> g i = g k}"
  have fin: "finite ?A" by (rule finite_subset [of _ "{1..N}"]) auto
  have k: "k \<in> ?A" using assms by simp
  have "{i. 1 \<le> i \<and> i \<le> N \<and> (if i = k then None else Some (g i)) = Some (g k)} = ?A - {k}"
    by auto
  moreover have "card (?A - {k}) = card ?A - 1" using fin k by simp
  moreover have "0 < card ?A" using fin k by (auto simp: card_gt_0_iff)
  ultimately show ?thesis by simp
qed

lemma lost_post_reliable: "reliable lost_post_env example_config 5"
  by (simp add: reliable_def lost_post_env_def example_env_def example_config_def)

section \<open>A fresh run over a date-ordered archive\<close>

text \<open>
  Claim C1. Take an archive with indices \<open>1..N\<close>, index \<open>i\<close> always answering with a post
  dated \<open>date_of i\<close>, dates not increasing as the index decreases, in a session where logging
  in, the newest-index lookup (answering \<open>N\<close>) and every save succeed. A run of \<open>crawl\<close> by a
  new crawler with no file ends normally and leaves a file with the header and one row per
  distinct date, whose count is the number of indices with that date and whose earliest
  index is the least index with that date.
\<close>

theorem fresh_run_tallies_each_day:
  assumes rel: "reliable env cfg N" and N: "0 \<le> N"
    and ans: "\<forall>i. 1 \<le> i \<and> i \<le> N \<longrightarrow> answers env cfg i (Some (date_of i))"
    and mono: "\<forall>i j. 1 \<le> i \<and> i \<le> j \<and> j \<le> N \<longrightarrow> date_of i \<le> date_of j"
  shows "fst (crawl env cfg (init_world None)) = Inr ()
       \<and> (\<exists>T. disk (snd (crawl env cfg (init_world None)))
                 = Some (header_row # map (day_row env) T)
             \<and> distinct (map fst T)
             \<and> fst ` set T = date_of ` {1..N}
             \<and> (\<forall>(d, c, e) \<in> set T.
                   c = int (card {i. 1 \<le> i \<and> i \<le> N \<and> date_of i = d})
                   \<and> e = Min {i. 1 \<le> i \<and> i \<le> N \<and> date_of i = d}))"
proof -
  let ?f = "\<lambda>i. Some (date_of i)"
  let ?T = "tally ?f None (nat N)"
  note run = crawl_fresh_tally [OF rel N, of ?f]
  have total: "day_total d ?T = int (card {i. 1 \<le> i \<and> i \<le> N \<and> date_of i = d})" for d
    using tally_total [of d ?f None "nat N"] N
    by (simp add: length_filter_upto_card)
  have shape: "distinct (map fst ?T) \<and> fst ` set ?T = date_of ` {1..N}
       \<and> (\<forall>(d, c, e) \<in> set ?T.
            1 \<le> e \<and> e \<le> N \<and> date_of e = d
            \<and> (\<forall>i. 1 \<le> i \<and> i \<le> N \<and> date_of i = d \<longrightarrow> e \<le> i))"
  proof (cases "nat N")
    case 0
    with N have "N = 0" by simp
    then show ?thesis by simp
  next
    case (Suc n)
    then have n: "int n + 1 = N" by linarith
    have t: "?T = tally ?f (Some (date_of (int n + 1), 1)) n"
      unfolding Suc by (simp add: algebra_simps)
    have m: "\<forall>i j. 1 \<le> i \<and> i \<le> j \<and> j \<le> int n + 1 \<longrightarrow> date_of i \<le> date_of j"
      using mono n by simp
    from tally_monotone [OF m refl, of 1] show ?thesis unfolding t n .
  qed
  have each: "c = int (card {i. 1 \<le> i \<and> i \<le> N \<and> date_of i = d})
       \<and> e = Min {i. 1 \<le> i \<and> i \<le> N \<and> date_of i = d}"
    if m: "(d, c, e) \<in> set ?T" for d c e
  proof -
    from shape have dist: "distinct (map fst ?T)" by blast
    from day_total_distinct [OF dist m] total [of d]
    have c: "c = int (card {i. 1 \<le> i \<and> i \<le> N \<and> date_of i = d})" by simp
    from shape m have e: "1 \<le> e" "e \<le> N" "date_of e = d"
      "\<forall>i. 1 \<le> i \<and> i \<le> N \<and> date_of i = d \<longrightarrow> e \<le> i" by auto
    have fin: "finite {i. 1 \<le> i \<and> i \<le> N \<and> date_of i = d}"
      by (rule finite_subset [of _ "{1..N}"]) auto
    have "Min {i. 1 \<le> i \<and> i \<le> N \<and> date_of i = d} = e"
      using fin e by (intro Min_eqI) auto
    with c show ?thesis by simp
  qed
  have "disk (snd (crawl env cfg (init_world None))) = Some (header_row # map (day_row env) ?T)
       \<and> distinct (map fst ?T) \<and> fst ` set ?T = date_of ` {1..N}
       \<and> (\<forall>(d, c, e) \<in> set ?T.
             c = int (card {i. 1 \<le> i \<and> i \<le> N \<and> date_of i = d})
             \<and> e = Min {i. 1 \<le> i \<and> i \<le> N \<and> date_of i = d})"
    using run [OF ans] shape each by auto
  then show ?thesis using run [OF ans] by blast
qed

theorem fresh_run_tallies_each_day_witness:
  "fst (crawl example_env example_config (init_world None)) = Inr ()
   \<and> (\<exists>T. disk (snd (crawl example_env example_config (init_world None)))
             = Some (header_row # map (day_row example_env) T)
         \<and> distinct (map fst T)
         \<and> fst ` set T = example_date ` {1..5}
         \<and> (\<forall>(d, c, e) \<in> set T.
               c = int (card {i. 1 \<le> i \<and> i \<le> 5 \<and> example_date i = d})
               \<and> e = Min {i. 1 \<le> i \<and> i \<le> 5 \<and> example_date i = d}))
   \<and> disk (snd (crawl example_env example_config (init_world None)))
       = Some [header_row, [CStr ''2024-01-03'', CInt 2, CInt 4],
               [CStr ''2024-01-02'', CInt 1, CInt 3], [CStr ''2024-01-01'', CInt 2, CInt 1]]"
proof -
  have m: "\<forall>i j. 1 \<le> i \<and> i \<le> j \<and> j \<le> 5 \<longrightarrow> example_date i \<le> example_date j"
    by (simp add: example_date_def)
  have n: "(0::int) \<le> 5" by simp
  note t = fresh_run_tallies_each_day [OF example_reliable n example_answers m]
  have d: "disk (snd (crawl example_env example_config (init_world None)))
       = Some [header_row, [CStr ''2024-01-03'', CInt 2, CInt 4],
               [CStr ''2024-01-02'', CInt 1, CInt 3], [CStr ''2024-01-01'', CInt 2, CInt 1]]"
    by code_simp
  from t d show ?thesis by blast
qed

text \<open>A traversal from \<open>S\<close> over a table \<open>rows\<close>: its outcome and the count of a day.\<close>

lemma traverse_count:
  assumes mr: "0 < max_retries cfg" and saves: "\<forall>n. workbook_save env n = Inr ()"
    and S: "0 \<le> S"
    and ans: "\<forall>i. 1 \<le> i \<and> i \<le> S \<longrightarrow> answers env cfg i (f i)"
    and tab: "sheet w = Some rows" "disk w = Some rows"
    and inj: "inj_on (strftime_ymd env) A" and d: "d \<in> A"
    and A: "\<forall>i d'. 1 \<le> i \<and> i \<le> S \<and> f i = Some d' \<longrightarrow> d' \<in> A"
  shows "fst (traverse env cfg (Some S) w) = Inr ()
       \<and> persisted_count env d (snd (traverse env cfg (Some S) w))
           = sum_list (map (row_count (strftime_ymd env d)) rows)
             + int (card {i. 1 \<le> i \<and> i \<le> S \<and> f i = Some d})"
proof -
  let ?ls = "\<lparr>current_index = S, current_date = None, daily_count = Map.empty\<rparr>"
  let ?T = "tally f None (nat S)"
  have a: "\<forall>i. 1 \<le> i \<and> i \<le> int (nat S) \<longrightarrow> answers env cfg i (f i)"
    using ans S by simp
  have i: "current_index ?ls = int (nat S)" using S by simp
  have t: "tracks ?ls None" by (simp add: tracks_def)
  from loop_then_flush_tally [OF mr saves a i t tab]
  obtain w2 where l: "loop_then_flush env cfg ?ls w = (Inr (), w2)"
    and w2: "disk w2 = Some (rows @ map (day_row env) ?T)"
    by (cases "loop_then_flush env cfg ?ls w") auto
  have tr: "traverse env cfg (Some S) w = (Inr (), emit [Info AllSaved] w2)"
    by (simp add: traverse_loop_then_flush l)
  have sub: "fst ` set ?T \<subseteq> A"
  proof
    fix x assume "x \<in> fst ` set ?T"
    then obtain c e where "(x, c, e) \<in> set ?T" by force
    from tally_dates [OF this] obtain i where "1 \<le> i" "i \<le> int (nat S)" "f i = Some x"
      by auto
    with A S show "x \<in> A" by auto
  qed
  have "persisted_count env d (snd (traverse env cfg (Some S) w))
      = sum_list (map (row_count (strftime_ymd env d)) rows) + day_total d ?T"
    unfolding tr persisted_count_def using w2 persisted_rows_total [OF inj d sub] by simp
  also have "day_total d ?T = int (length (filter (\<lambda>i. f i = Some d) [1..S]))"
    using tally_total [of d f None "nat S"] S by simp
  finally show ?thesis using tr by (simp add: length_filter_upto_card)
qed

section \<open>One post that cannot be fetched\<close>

text \<open>
  Claim C4. Compare two traversals from the same index \<open>S\<close> over the same table: one where
  every index \<open>1..S\<close> answers, one where index \<open>k\<close> fails on every attempt and all others
  answer as before (saves succeeding in both). The second traversal ends normally, and the
  count its file holds for the date of \<open>k\<close> is exactly one less than the count of the
  first. The same holds for two fresh runs of \<open>crawl\<close> in sessions that are otherwise
  reliable, where the count of the first run is the number of indices with that date. At
  index \<open>k\<close> the step logs the failure, leaves the active day, the counts, the file and the
  sheet as they are, and goes on with \<open>k - 1\<close>.
\<close>

theorem lost_post_undercounts_by_one:
  assumes mr: "0 < max_retries cfg"
    and saves: "\<forall>n. workbook_save env n = Inr ()" "\<forall>n. workbook_save env' n = Inr ()"
    and k: "1 \<le> k" "k \<le> S"
    and full: "\<forall>i. 1 \<le> i \<and> i \<le> S \<longrightarrow> answers env cfg i (Some (date_of i))"
    and part: "\<forall>i. 1 \<le> i \<and> i \<le> S \<and> i \<noteq> k \<longrightarrow> answers env' cfg i (Some (date_of i))"
    and dead: "answers env' cfg k None"
    and same: "strftime_ymd env' = strftime_ymd env"
    and inj: "inj_on (strftime_ymd env) (date_of ` {1..S})"
    and tab: "sheet w = Some rows" "disk w = Some rows"
    and tab': "sheet w' = Some rows" "disk w' = Some rows"
  shows "fst (traverse env' cfg (Some S) w') = Inr ()
       \<and> persisted_count env' (date_of k) (snd (traverse env' cfg (Some S) w'))
           = persisted_count env (date_of k) (snd (traverse env cfg (Some S) w)) - 1
       \<and> (reliable env cfg S \<and> reliable env' cfg S \<longrightarrow>
            fst (crawl env' cfg (init_world None)) = Inr ()
            \<and> persisted_count env' (date_of k) (snd (crawl env' cfg (init_world None)))
                = persisted_count env (date_of k) (snd (crawl env cfg (init_world None))) - 1
            \<and> persisted_count env (date_of k) (snd (crawl env cfg (init_world None)))
                = int (card {i. 1 \<le> i \<and> i \<le> S \<and> date_of i = date_of k}))
       \<and> (current_index ls = k \<longrightarrow>
            (\<exists>e. fst (crawl_step env' cfg ls v) = ls\<lparr>current_index := k - 1\<rparr>
               \<and> store (snd (crawl_step env' cfg ls v)) = store v
               \<and> events (snd (crawl_step env' cfg ls v))
                   = events (snd (snd (process_post env' cfg ls v)))
                       @ [ErrorIndex k e, PbarUpdate]))"
proof -
  let ?f = "\<lambda>i. Some (date_of i)"
  let ?f' = "\<lambda>i. if i = k then None else Some (date_of i)"
  let ?A = "date_of ` {1..S}"
  have S: "0 \<le> S" using k by simp
  have d: "date_of k \<in> ?A" using k by auto
  have ans': "\<forall>i. 1 \<le> i \<and> i \<le> S \<longrightarrow> answers env' cfg i (?f' i)"
    using part dead by simp
  have inj': "inj_on (strftime_ymd env') ?A" using inj same by simp
  have A: "\<forall>i d'. 1 \<le> i \<and> i \<le> S \<and> ?f i = Some d' \<longrightarrow> d' \<in> ?A" by auto
  have A': "\<forall>i d'. 1 \<le> i \<and> i \<le> S \<and> ?f' i = Some d' \<longrightarrow> d' \<in> ?A"
    by (auto split: if_splits)
  note one = card_without_one [OF k, of date_of]
  have t: "persisted_count env (date_of k) (snd (traverse env cfg (Some S) w))
        = sum_list (map (row_count (strftime_ymd env (date_of k))) rows)
          + int (card {i. 1 \<le> i \<and> i \<le> S \<and> date_of i = date_of k})"
    using traverse_count [OF mr saves(1) S full tab inj d A] by simp
  have t': "fst (traverse env' cfg (Some S) w') = Inr ()"
    "persisted_count env' (date_of k) (snd (traverse env' cfg (Some S) w'))
        = sum_list (map (row_count (strftime_ymd env (date_of k))) rows)
          + int (card {i. 1 \<le> i \<and> i \<le> S \<and> ?f' i = Some (date_of k)})"
    using traverse_count [OF mr saves(2) S ans' tab' inj' d A'] same by simp_all
  have p1: "persisted_count env' (date_of k) (snd (traverse env' cfg (Some S) w'))
           = persisted_count env (date_of k) (snd (traverse env cfg (Some S) w)) - 1"
    using t t'(2) one by simp
  have p2: "fst (crawl env' cfg (init_world None)) = Inr ()
            \<and> persisted_count env' (date_of k) (snd (crawl env' cfg (init_world None)))
                = persisted_count env (date_of k) (snd (crawl env cfg (init_world None))) - 1
            \<and> persisted_count env (date_of k) (snd (crawl env cfg (init_world None)))
                = int (card {i. 1 \<le> i \<and> i \<le> S \<and> date_of i = date_of k})"
    if rel: "reliable env cfg S" "reliable env' cfg S"
  proof -
    have c: "persisted_count env (date_of k) (snd (crawl env cfg (init_world None)))
          = int (card {i. 1 \<le> i \<and> i \<le> S \<and> date_of i = date_of k})"
      using crawl_fresh_count [OF rel(1) S full inj d A] by simp
    have c': "persisted_count env' (date_of k) (snd (crawl env' cfg (init_world None)))
          = int (card {i. 1 \<le> i \<and> i \<le> S \<and> ?f' i = Some (date_of k)})"
      by (rule crawl_fresh_count [OF rel(2) S ans' inj' d A'])
    have r: "fst (crawl env' cfg (init_world None)) = Inr ()"
      using crawl_fresh_tally [OF rel(2) S ans'] by simp
    from c c' r one show ?thesis by simp
  qed
  have p3: "\<exists>e. fst (crawl_step env' cfg ls v) = ls\<lparr>current_index := k - 1\<rparr>
               \<and> store (snd (crawl_step env' cfg ls v)) = store v
               \<and> events (snd (crawl_step env' cfg ls v))
                   = events (snd (snd (process_post env' cfg ls v)))
                       @ [ErrorIndex k e, PbarUpdate]"
    if "current_index ls = k"
    using crawl_step_silent [of env' cfg ls v] dead that by auto
  from t'(1) p1 p2 p3 show ?thesis by blast
qed

theorem lost_post_undercounts_by_one_witness:
  "fst (crawl lost_post_env example_config (init_world None)) = Inr ()
   \<and> persisted_count lost_post_env 738888
         (snd (crawl lost_post_env example_config (init_world None)))
       = persisted_count example_env 738888
           (snd (crawl example_env example_config (init_world None))) - 1
   \<and> persisted_count lost_post_env 738888
         (snd (crawl lost_post_env example_config (init_world None))) = 1
   \<and> persisted_count lost_post_env 738888
         (snd (traverse lost_post_env example_config (Some 5) boundary_world))
       = persisted_count example_env 738888
           (snd (traverse example_env example_config (Some 5) boundary_world)) - 1"
proof -
  have mr: "0 < max_retries example_config" by (simp add: example_config_def)
  have sv: "\<forall>n. workbook_save example_env n = Inr ()"
    "\<forall>n. workbook_save lost_post_env n = Inr ()"
    by (simp_all add: lost_post_env_def example_env_def)
  have k: "(1::int) \<le> 4" "(4::int) \<le> 5" by simp_all
  have part: "\<forall>i. 1 \<le> i \<and> i \<le> 5 \<and> i \<noteq> 4
                \<longrightarrow> answers lost_post_env example_config i (Some (example_date i))"
    by (simp add: answers_def lost_post_env_def example_env_def post_date_of_def
          example_stamp_def example_date_def)
  have dead: "answers lost_post_env example_config 4 None"
    by (simp add: answers_def lost_post_env_def)
  have same: "strftime_ymd lost_post_env = strftime_ymd example_env"
    by (simp add: lost_post_env_def)
  have inj: "inj_on (strftime_ymd example_env) (example_date ` {1..5})"
    by (auto simp: inj_on_def example_env_def example_date_def split: if_splits)
  have tab: "sheet boundary_world = Some [header_row]" "disk boundary_world = Some [header_row]"
    by (simp_all add: boundary_world_def init_world_def)
  have d: "example_date 4 = 738888" by (simp add: example_date_def)
  note t = lost_post_undercounts_by_one
             [OF mr sv k example_answers part dead same inj tab tab]
  have v: "persisted_count lost_post_env 738888
         (snd (crawl lost_post_env example_config (init_world None))) = 1"
    by code_simp
  from t v example_reliable lost_post_reliable show ?thesis unfolding d by blast
qed

end
